theory Spec2Isabelle
  imports Main
begin

section \<open>The page, the timer queue and the widget toolkit\<close>

text \<open>
  The script \<^verbatim>\<open>static/main.js\<close> registers one listener for \<^verbatim>\<open>DOMContentLoaded\<close>.
  When the listener runs it walks \<^verbatim>\<open>document.querySelectorAll('.alert')\<close> and, for
  every element whose class list does not contain \<^verbatim>\<open>alert-danger\<close>, calls
  \<^verbatim>\<open>setTimeout\<close> with a delay of 4000 and a callback that closes the element through
  \<^verbatim>\<open>bootstrap.Alert\<close> inside \<^verbatim>\<open>try { ... } catch(e){}\<close>.

  A DOM element is a reference: the callback closes over the reference \<^verbatim>\<open>el\<close>, not over
  the classes the element had. So an element is an identity (\<open>node\<close>) and the page is a
  store: the elements in document order and the class tokens of each.
\<close>

type_synonym node = nat

record page =
  elements :: "node list"
  classList :: "node \<Rightarrow> string list"

text \<open>Values a JavaScript \<^verbatim>\<open>throw\<close> can carry here.\<close>

datatype js_error = ReferenceError | TypeError | WidgetError string

text \<open>
  The two function objects of the script, defunctionalised: the listener passed to
  \<^verbatim>\<open>addEventListener\<close> and the closure passed to \<^verbatim>\<open>setTimeout\<close>, which captures
  \<^verbatim>\<open>el\<close>.
\<close>

datatype listener = AutoDismiss

datatype callback = Dismiss node

record timer =
  tid :: nat
  due :: nat
  callback :: callback

text \<open>
  What an observer of the page can see happen, each with the clock value at which it
  happened: a listener being invoked, a timer callback being run (with the timer's id),
  and the two calls the callback makes into the toolkit. \<open>GetOrCreateCalled\<close> is
  recorded when the callback reaches \<^verbatim>\<open>bootstrap.Alert.getOrCreateInstance(el)\<close> with
  \<^verbatim>\<open>bootstrap\<close> defined, \<open>CloseCalled\<close> when it reaches \<^verbatim>\<open>bs.close()\<close>; either call
  may then throw.
\<close>

datatype event =
    Invoked listener
  | Fired nat callback
  | GetOrCreateCalled node
  | CloseCalled node

record world =
  doc :: page
  contentLoaded :: bool
  listeners :: "(string \<times> listener) list"
  clock :: nat
  nextTimerId :: nat
  timers :: "timer list"
  trace :: "(nat \<times> event) list"

text \<open>
  The toolkit (\<^verbatim>\<open>bootstrap.Alert\<close>) is not part of the repository; it is a parameter.
  \<open>getOrCreateInstance\<close> returns a controller or throws, \<open>close\<close> returns or throws,
  and both may change the page on the way. The global \<^verbatim>\<open>bootstrap\<close> itself may be
  undefined: the parameter is a \<open>toolkit option\<close>, and \<open>None\<close> makes the reference throw.
  A toolkit without \<^verbatim>\<open>Alert\<close> is one whose \<open>getOrCreateInstance\<close> throws \<open>TypeError\<close>.
  A controller without a \<^verbatim>\<open>close\<close> method is one whose \<open>close\<close> throws \<open>TypeError\<close> and
  leaves the page as it is; for such a controller the \<open>CloseCalled\<close> entry of the trace
  records the attempt, no invocation takes place. So a statement that \<^verbatim>\<open>close()\<close> was
  invoked is made of the page the toolkit leaves behind, or of \<open>CloseCalled\<close> for a
  toolkit whose \<open>close\<close> returns.
\<close>

record 'c toolkit =
  getOrCreateInstance :: "node \<Rightarrow> page \<Rightarrow> (js_error + 'c) \<times> page"
  close :: "'c \<Rightarrow> page \<Rightarrow> js_error option \<times> page"

section \<open>The platform functions the script calls\<close>

text \<open>\<^verbatim>\<open>classList.contains(tok)\<close>: is \<open>tok\<close> one of the class tokens.\<close>

definition contains :: "string list \<Rightarrow> string \<Rightarrow> bool" where
  "contains toks tok \<longleftrightarrow> tok \<in> set toks"

text \<open>
  \<^verbatim>\<open>document.querySelectorAll('.' + c)\<close>: the elements carrying the class token \<open>c\<close>,
  in document order, as a static list.
\<close>

definition querySelectorAll_class :: "string \<Rightarrow> page \<Rightarrow> node list" where
  "querySelectorAll_class c p = filter (\<lambda>n. contains (classList p n) c) (elements p)"

text \<open>
  \<^verbatim>\<open>setTimeout(cb, delay)\<close>: a new pending timer, due \<open>delay\<close> after the current clock.
  The script drops the timer id that \<^verbatim>\<open>setTimeout\<close> returns, so only the new state is
  returned.
\<close>

definition setTimeout :: "callback \<Rightarrow> nat \<Rightarrow> world \<Rightarrow> world" where
  "setTimeout cb delay w =
     w\<lparr>timers := timers w @ [\<lparr>tid = nextTimerId w, due = clock w + delay, callback = cb\<rparr>],
       nextTimerId := nextTimerId w + 1\<rparr>"

definition addEventListener :: "string \<Rightarrow> listener \<Rightarrow> world \<Rightarrow> world" where
  "addEventListener ty l w = w\<lparr>listeners := listeners w @ [(ty, l)]\<rparr>"

section \<open>The script\<close>

text \<open>
  The body of the \<^verbatim>\<open>try\<close> block:
  \<^verbatim>\<open>var bs = bootstrap.Alert.getOrCreateInstance(el); bs.close();\<close>
  The result is the thrown value, if any, and the state reached (a \<^verbatim>\<open>throw\<close> does not
  undo what happened before it).
\<close>

definition try_block :: "'c toolkit option \<Rightarrow> node \<Rightarrow> world \<Rightarrow> js_error option \<times> world" where
  "try_block bootstrap el w =
     (case bootstrap of
        None \<Rightarrow> (Some ReferenceError, w)
      | Some tk \<Rightarrow>
          (let w1 = w\<lparr>trace := trace w @ [(clock w, GetOrCreateCalled el)]\<rparr> in
           case getOrCreateInstance tk el (doc w1) of
             (Inl e, p) \<Rightarrow> (Some e, w1\<lparr>doc := p\<rparr>)
           | (Inr bs, p) \<Rightarrow>
               (let w2 = w1\<lparr>doc := p, trace := trace w1 @ [(clock w1, CloseCalled el)]\<rparr> in
                case close tk bs (doc w2) of
                  (r, p') \<Rightarrow> (r, w2\<lparr>doc := p'\<rparr>))))"

text \<open>The timer callback: \<^verbatim>\<open>function(){ try{ ... } catch(e){} }\<close>.\<close>

definition dismiss :: "'c toolkit option \<Rightarrow> node \<Rightarrow> world \<Rightarrow> js_error option \<times> world" where
  "dismiss bootstrap el w =
     (case try_block bootstrap el w of
        (Some e, w') \<Rightarrow> (None, w')
      | (None, w') \<Rightarrow> (None, w'))"

fun run_callback :: "'c toolkit option \<Rightarrow> callback \<Rightarrow> world \<Rightarrow> js_error option \<times> world" where
  "run_callback bootstrap (Dismiss el) w = dismiss bootstrap el w"

text \<open>
  The function passed to \<^verbatim>\<open>forEach\<close>:
  \<^verbatim>\<open>if (!el.classList.contains('alert-danger')){ setTimeout(function(){...}, 4000); }\<close>
\<close>

definition forEach_body :: "node \<Rightarrow> world \<Rightarrow> world" where
  "forEach_body el w =
     (if \<not> contains (classList (doc w) el) ''alert-danger''
      then setTimeout (Dismiss el) 4000 w
      else w)"

text \<open>The listener: \<^verbatim>\<open>document.querySelectorAll('.alert').forEach(...)\<close>.\<close>

definition ready_handler :: "world \<Rightarrow> world" where
  "ready_handler w = fold forEach_body (querySelectorAll_class ''alert'' (doc w)) w"

text \<open>Evaluating the script: \<^verbatim>\<open>document.addEventListener('DOMContentLoaded', ...)\<close>.\<close>

definition main_js :: "world \<Rightarrow> world" where
  "main_js w = addEventListener ''DOMContentLoaded'' AutoDismiss w"

section \<open>The event loop under a simulated clock\<close>

text \<open>
  The browser is modelled as far as the script can tell it apart: listeners registered
  by \<^verbatim>\<open>addEventListener\<close> are called in registration order when an event of their
  type is dispatched; pending timers run in due order once the clock has reached their
  due time; \<^verbatim>\<open>DOMContentLoaded\<close> is dispatched once per page load. Time is a clock that
  only moves when an \<open>Advance\<close> action moves it, as under fake timers in a test. The
  timer queue holds the timers of this script only, and the toolkit can change the page
  but not the queue.

  Calling a listener is recorded in the trace; the only listener there is runs
  \<open>ready_handler\<close>.
\<close>

fun call_listener :: "listener \<Rightarrow> world \<Rightarrow> world" where
  "call_listener AutoDismiss w =
     ready_handler (w\<lparr>trace := trace w @ [(clock w, Invoked AutoDismiss)]\<rparr>)"

definition dispatchEvent :: "string \<Rightarrow> world \<Rightarrow> world" where
  "dispatchEvent ty w =
     fold call_listener (map snd (filter (\<lambda>(ty', l). ty' = ty) (listeners w))) w"

text \<open>
  The pending timer that runs next: the one with the least due time, the first
  registered among equals.
\<close>

fun earliest :: "timer list \<Rightarrow> timer option" where
  "earliest [] = None"
| "earliest (t # ts) =
     (case earliest ts of
        None \<Rightarrow> Some t
      | Some u \<Rightarrow> if due u < due t then Some u else Some t)"

definition next_due :: "nat \<Rightarrow> timer list \<Rightarrow> timer option" where
  "next_due target ts = earliest (filter (\<lambda>t. due t \<le> target) ts)"

text \<open>
  Advancing the simulated clock to \<open>target\<close>: as long as a pending timer is due by then,
  the clock moves to its due time, the timer leaves the queue and its callback runs.
  A callback that lets an error escape stops the run with that error.
\<close>

function run_timers :: "'c toolkit option \<Rightarrow> nat \<Rightarrow> world \<Rightarrow> js_error option \<times> world" where
  "run_timers bootstrap target w =
     (case next_due target (timers w) of
        None \<Rightarrow> (None, w\<lparr>clock := max (clock w) target\<rparr>)
      | Some t \<Rightarrow>
          (let w1 = w\<lparr>clock := max (clock w) (due t), timers := remove1 t (timers w)\<rparr>;
               w2 = w1\<lparr>trace := trace w1 @ [(clock w1, Fired (tid t) (callback t))]\<rparr>
           in case run_callback bootstrap (callback t) w2 of
                (Some e, w3) \<Rightarrow> (Some e, w3)
              | (None, w3) \<Rightarrow> run_timers bootstrap target w3))"
  by pat_completeness auto
termination
proof (relation "measure (\<lambda>(bootstrap, target, w). length (timers w))")
  show "wf (measure (\<lambda>(bootstrap, target, w). length (timers w)))"
    by simp
next
  fix bootstrap :: "'c toolkit option" and target w t w1 w2 r w3
  assume nd: "next_due target (timers w) = Some t"
    and w1: "w1 = w\<lparr>clock := max (clock w) (due t), timers := remove1 t (timers w)\<rparr>"
    and w2: "w2 = w1\<lparr>trace := trace w1 @ [(clock w1, Fired (tid t) (callback t))]\<rparr>"
    and rc: "(r, w3) = run_callback bootstrap (callback t) w2"
  have keep: "timers (snd (dismiss bootstrap el v)) = timers v" for el v
  proof (cases "try_block bootstrap el v")
    case (Pair r' v')
    have "timers (snd (try_block bootstrap el v)) = timers v"
      by (simp add: try_block_def Let_def split: option.splits prod.splits sum.splits)
    with Pair show ?thesis
      by (cases r') (simp_all add: dismiss_def)
  qed
  from rc have "w3 = snd (run_callback bootstrap (callback t) w2)"
    by (metis snd_conv)
  then have "timers w3 = remove1 t (timers w)"
    by (cases "callback t") (simp add: keep w1 w2)
  moreover have "earliest us = Some u \<Longrightarrow> u \<in> set us" for us u
    by (induction us arbitrary: u) (auto split: option.splits if_splits)
  with nd have "t \<in> set (timers w)"
    by (fastforce simp: next_due_def)
  ultimately show "((bootstrap, target, w3), (bootstrap, target, w)) \<in> measure (\<lambda>(bootstrap, target, w). length (timers w))"
    using length_pos_if_in_set [of t "timers w"] by (simp add: length_remove1)
qed

declare run_timers.simps [simp del]

text \<open>
  What the browser, other page code and the user can do to the page: evaluate the
  script, fire the ready event (once per load), let time pass, change the DOM.
\<close>

datatype action = EvalScript | FireReady | Advance nat | Mutate "page \<Rightarrow> page"

fun step :: "'c toolkit option \<Rightarrow> action \<Rightarrow> world \<Rightarrow> js_error option \<times> world" where
  "step bootstrap EvalScript w = (None, main_js w)"
| "step bootstrap FireReady w =
     (None, if contentLoaded w then w
            else dispatchEvent ''DOMContentLoaded'' (w\<lparr>contentLoaded := True\<rparr>))"
| "step bootstrap (Advance d) w = run_timers bootstrap (clock w + d) w"
| "step bootstrap (Mutate f) w = (None, w\<lparr>doc := f (doc w)\<rparr>)"

fun run :: "'c toolkit option \<Rightarrow> action list \<Rightarrow> world \<Rightarrow> js_error option \<times> world" where
  "run bootstrap [] w = (None, w)"
| "run bootstrap (s # ss) w =
     (case step bootstrap s w of
        (Some e, w') \<Rightarrow> (Some e, w')
      | (None, w') \<Rightarrow> run bootstrap ss w')"

section \<open>Observations used to state the properties\<close>

text \<open>The element a timer callback closes over.\<close>

fun node_of :: "callback \<Rightarrow> node" where
  "node_of (Dismiss n) = n"

text \<open>
  The alert elements without the danger marker: what the \<^verbatim>\<open>if\<close> inside the
  \<^verbatim>\<open>forEach\<close> lets through, read off a page.
\<close>

definition eligible :: "page \<Rightarrow> node list" where
  "eligible p =
     filter (\<lambda>n. \<not> contains (classList p n) ''alert-danger'') (querySelectorAll_class ''alert'' p)"

text \<open>
  The timers that successive \<^verbatim>\<open>setTimeout(..., 4000)\<close> calls create for a list of
  elements, starting at timer id \<open>k\<close> with the clock at \<open>c\<close>.
\<close>

fun new_timers :: "nat \<Rightarrow> nat \<Rightarrow> node list \<Rightarrow> timer list" where
  "new_timers k c [] = []"
| "new_timers k c (n # ns) = \<lparr>tid = k, due = c + 4000, callback = Dismiss n\<rparr> # new_timers (Suc k) c ns"

text \<open>
  Projections of the trace: when the dismiss callback ran and for which element, on which
  elements \<^verbatim>\<open>close()\<close> was invoked, and when a listener was invoked.
\<close>

fun fired_of :: "(nat \<times> event) list \<Rightarrow> (nat \<times> node) list" where
  "fired_of [] = []"
| "fired_of ((c, Fired i (Dismiss n)) # es) = (c, n) # fired_of es"
| "fired_of (e # es) = fired_of es"

fun closed_of :: "(nat \<times> event) list \<Rightarrow> node list" where
  "closed_of [] = []"
| "closed_of ((c, CloseCalled n) # es) = n # closed_of es"
| "closed_of (e # es) = closed_of es"

fun invoked_of :: "(nat \<times> event) list \<Rightarrow> nat list" where
  "invoked_of [] = []"
| "invoked_of ((c, Invoked l) # es) = c # invoked_of es"
| "invoked_of (e # es) = invoked_of es"

definition fired :: "world \<Rightarrow> (nat \<times> node) list" where
  "fired w = fired_of (trace w)"

definition closed :: "world \<Rightarrow> node list" where
  "closed w = closed_of (trace w)"

definition invocations :: "world \<Rightarrow> nat list" where
  "invocations w = invoked_of (trace w)"

text \<open>The clock values at which the dismiss callback of element \<open>n\<close> ran.\<close>

definition fired_at :: "node \<Rightarrow> world \<Rightarrow> nat list" where
  "fired_at n w = map fst (filter (\<lambda>(c, m). m = n) (fired w))"

text \<open>The elements that have a dismiss timer pending, in queue order.\<close>

definition pending :: "world \<Rightarrow> node list" where
  "pending w = map (\<lambda>t. node_of (callback t)) (timers w)"

text \<open>
  What one run of the listener schedules: for each timer it adds, the element and the
  delay from the clock at which the listener ran.
\<close>

definition scheduled_by :: "world \<Rightarrow> (node \<times> nat) list" where
  "scheduled_by w =
     map (\<lambda>t. (node_of (callback t), due t - clock w))
       (drop (length (timers w)) (timers (ready_handler w)))"

text \<open>
  One turn of the loop in \<open>run_timers\<close>: the state after timer \<open>t\<close> has left the queue
  and its callback has run.
\<close>

definition fire :: "'c toolkit option \<Rightarrow> timer \<Rightarrow> world \<Rightarrow> world" where
  "fire bootstrap t w =
     snd (run_callback bootstrap (callback t)
            (w\<lparr>clock := max (clock w) (due t), timers := remove1 t (timers w),
               trace := trace w @ [(max (clock w) (due t), Fired (tid t) (callback t))]\<rparr>))"

text \<open>A toolkit that is present and hands out a controller for every element.\<close>

definition working :: "'c toolkit \<Rightarrow> bool" where
  "working tk \<longleftrightarrow> (\<forall>n p. \<exists>c. fst (getOrCreateInstance tk n p) = Inr c)"

text \<open>The time a list of actions lets pass, and the actions that only pass time or change the DOM.\<close>

fun elapsed :: "action list \<Rightarrow> nat" where
  "elapsed [] = 0"
| "elapsed (Advance d # as) = d + elapsed as"
| "elapsed (a # as) = elapsed as"

fun quiet :: "action \<Rightarrow> bool" where
  "quiet (Advance d) = True"
| "quiet (Mutate f) = True"
| "quiet a = False"

text \<open>DOM changes made by other page code or by the user.\<close>

definition appendChild :: "node \<Rightarrow> string list \<Rightarrow> page \<Rightarrow> page" where
  "appendChild n toks p = p\<lparr>elements := elements p @ [n], classList := (classList p)(n := toks)\<rparr>"

definition removeNode :: "node \<Rightarrow> page \<Rightarrow> page" where
  "removeNode n p = p\<lparr>elements := removeAll n (elements p)\<rparr>"

definition setClasses :: "node \<Rightarrow> string list \<Rightarrow> page \<Rightarrow> page" where
  "setClasses n toks p = p\<lparr>classList := (classList p)(n := toks)\<rparr>"

text \<open>
  A page that has just started loading: nothing registered, nothing pending, nothing
  observed yet.
\<close>

definition loading :: "page \<Rightarrow> nat \<Rightarrow> world" where
  "loading p c =
     \<lparr>doc = p, contentLoaded = False, listeners = [], clock = c, nextTimerId = 1,
      timers = [], trace = []\<rparr>"

text \<open>
  Two toolkits to run the model on. The first removes the element when \<^verbatim>\<open>close()\<close> is
  called and throws when the element is no longer in the page; the second always throws
  in \<^verbatim>\<open>getOrCreateInstance\<close>.
\<close>

definition removing_toolkit :: "node toolkit" where
  "removing_toolkit =
     \<lparr>getOrCreateInstance = (\<lambda>n p. (Inr n, p)),
      close = (\<lambda>n p. if n \<in> set (elements p) then (None, removeNode n p)
                      else (Some (WidgetError ''element is not in the page''), p))\<rparr>"


text \<open>No dismiss is pending for element \<open>n\<close> and none has run or called \<^verbatim>\<open>close()\<close> for it.\<close>

definition untouched :: "node \<Rightarrow> world \<Rightarrow> bool" where
  "untouched n w \<longleftrightarrow> n \<notin> set (pending w) \<and> n \<notin> set (closed w) \<and> n \<notin> snd ` set (fired w)"

text \<open>
  A page with three alerts: element 1 (success), element 2 (danger), element 3 (info);
  and the same page with the class tokens written in another order and repeated.
\<close>

definition abc_page :: page where
  "abc_page =
     \<lparr>elements = [1, 2, 3],
      classList = (\<lambda>n. []) (1 := [''alert'', ''alert-success''],
                              2 := [''alert'', ''alert-danger''],
                              3 := [''alert'', ''alert-info''])\<rparr>"

definition abc_page_reordered :: page where
  "abc_page_reordered =
     \<lparr>elements = [1, 2, 3],
      classList = (\<lambda>n. []) (1 := [''alert-success'', ''alert'', ''alert''],
                              2 := [''alert-danger'', ''alert''],
                              3 := [''alert-info'', ''alert''])\<rparr>"

text \<open>
  A page whose alerts carry tokens that resemble the danger marker: element 5 has
  \<^verbatim>\<open>alert-warning\<close>, element 6 has tokens that contain \<^verbatim>\<open>alert-danger\<close> or differ
  from it in case only, element 7 has \<^verbatim>\<open>alert-danger\<close> itself.
\<close>

definition lookalike_page :: page where
  "lookalike_page =
     \<lparr>elements = [5, 6, 7],
      classList = (\<lambda>n. []) (5 := [''alert'', ''alert-warning''],
                              6 := [''alert'', ''alert-danger-custom'', ''my-alert-danger'', ''Alert-Danger''],
                              7 := [''alert'', ''alert-danger''])\<rparr>"

text \<open>
  What the toolkit itself does to a page when it is asked for the controller bound to
  element \<open>n\<close> and the close operation of that controller is invoked. Nothing of the
  script enters here: it is the toolkit's two functions, one after the other.
\<close>

definition closing :: "'c toolkit \<Rightarrow> node \<Rightarrow> page \<Rightarrow> page" where
  "closing tk n p =
     (case getOrCreateInstance tk n p of
        (Inl e, p') \<Rightarrow> p'
      | (Inr bs, p') \<Rightarrow> snd (close tk bs p'))"

text \<open>
  A toolkit that shows what it was asked to do: \<^verbatim>\<open>close()\<close> always returns, detaches
  the element its controller is bound to and appends the token \<^verbatim>\<open>closed\<close> to the
  classes of that element, once per invocation.
\<close>

definition tagging_toolkit :: "node toolkit" where
  "tagging_toolkit =
     \<lparr>getOrCreateInstance = (\<lambda>n p. (Inr n, p)),
      close = (\<lambda>n p. (None, p\<lparr>elements := removeAll n (elements p),
                                 classList := (classList p)(n := classList p n @ [''closed''])\<rparr>))\<rparr>"

section \<open>Facts about the platform functions and the event loop\<close>

lemma earliest_mem: "earliest ts = Some t \<Longrightarrow> t \<in> set ts"
  by (induction ts arbitrary: t) (auto split: option.splits if_splits)

lemma next_due_mem: "next_due target ts = Some t \<Longrightarrow> t \<in> set ts \<and> due t \<le> target"
  using earliest_mem [of "filter (\<lambda>t. due t \<le> target) ts" t] by (simp add: next_due_def)

lemma try_block_timers: "timers (snd (try_block bootstrap el w)) = timers w"
  by (simp add: try_block_def Let_def split: option.splits prod.splits sum.splits)

lemma dismiss_timers: "timers (snd (dismiss bootstrap el w)) = timers w"
proof (cases "try_block bootstrap el w")
  case (Pair r w')
  with try_block_timers [of bootstrap el w] show ?thesis
    by (cases r) (simp_all add: dismiss_def)
qed

lemma run_callback_timers: "timers (snd (run_callback bootstrap cb w)) = timers w"
  by (cases cb) (simp add: dismiss_timers)

lemma fired_of_append: "fired_of (es @ fs) = fired_of es @ fired_of fs"
  by (induction es rule: fired_of.induct) auto

lemma closed_of_append: "closed_of (es @ fs) = closed_of es @ closed_of fs"
  by (induction es rule: closed_of.induct) auto

lemma invoked_of_append: "invoked_of (es @ fs) = invoked_of es @ invoked_of fs"
  by (induction es rule: invoked_of.induct) auto

lemma new_timers_append:
  "new_timers k c (ns @ ms) = new_timers k c ns @ new_timers (k + length ns) c ms"
  by (induction ns arbitrary: k) auto

lemma fold_forEach_body:
  "fold forEach_body ns w =
     w\<lparr>timers := timers w @ new_timers (nextTimerId w) (clock w)
                    (filter (\<lambda>n. \<not> contains (classList (doc w) n) ''alert-danger'') ns),
       nextTimerId := nextTimerId w +
                    length (filter (\<lambda>n. \<not> contains (classList (doc w) n) ''alert-danger'') ns)\<rparr>"
proof (induction ns arbitrary: w)
  case Nil
  show ?case by simp
next
  case (Cons n ns)
  show ?case
    by (simp add: Cons.IH) (simp add: forEach_body_def setTimeout_def)
qed

lemma ready_handler_eq:
  "ready_handler w =
     w\<lparr>timers := timers w @ new_timers (nextTimerId w) (clock w) (eligible (doc w)),
       nextTimerId := nextTimerId w + length (eligible (doc w))\<rparr>"
  by (simp add: ready_handler_def fold_forEach_body eligible_def)

lemma map_callback_new_timers: "map callback (new_timers k c ns) = map Dismiss ns"
  by (induction ns arbitrary: k) auto

lemma due_new_timers: "t \<in> set (new_timers k c ns) \<Longrightarrow> due t = c + 4000"
  by (induction ns arbitrary: k) auto

lemma map_tid_new_timers: "map tid (new_timers k c ns) = [k ..< k + length ns]"
  by (induction ns arbitrary: k) (auto simp: upt_rec)

lemma try_block_shape:
  "\<exists>p es. snd (try_block bootstrap el w) = w\<lparr>doc := p, trace := trace w @ es\<rparr> \<and>
     (es = [] \<or> es = [(clock w, GetOrCreateCalled el)] \<or>
      es = [(clock w, GetOrCreateCalled el), (clock w, CloseCalled el)])"
proof (cases bootstrap)
  case None
  then have "snd (try_block bootstrap el w) = w\<lparr>doc := doc w, trace := trace w @ []\<rparr>"
    by (simp add: try_block_def)
  then show ?thesis by blast
next
  case (Some tk)
  obtain r p where g: "getOrCreateInstance tk el (doc w) = (r, p)"
    by (cases "getOrCreateInstance tk el (doc w)")
  show ?thesis
  proof (cases r)
    case (Inl e)
    with Some g have "snd (try_block bootstrap el w) =
        w\<lparr>doc := p, trace := trace w @ [(clock w, GetOrCreateCalled el)]\<rparr>"
      by (simp add: try_block_def)
    then show ?thesis by blast
  next
    case (Inr bs)
    obtain r' p' where c: "close tk bs p = (r', p')"
      by (cases "close tk bs p")
    with Some g Inr have "snd (try_block bootstrap el w) =
        w\<lparr>doc := p', trace := trace w @ [(clock w, GetOrCreateCalled el), (clock w, CloseCalled el)]\<rparr>"
      by (simp add: try_block_def)
    then show ?thesis by blast
  qed
qed

lemma dismiss_no_error: "fst (dismiss bootstrap el w) = None"
  by (cases "try_block bootstrap el w") (simp add: dismiss_def split: option.splits)

lemma dismiss_snd: "snd (dismiss bootstrap el w) = snd (try_block bootstrap el w)"
  by (cases "try_block bootstrap el w") (simp add: dismiss_def split: option.splits)

lemma run_callback_no_error: "fst (run_callback bootstrap cb w) = None"
  by (cases cb) (simp add: dismiss_no_error)

lemma run_callback_shape:
  "\<exists>p es. snd (run_callback bootstrap cb w) = w\<lparr>doc := p, trace := trace w @ es\<rparr> \<and>
     (es = [] \<or> es = [(clock w, GetOrCreateCalled (node_of cb))] \<or>
      es = [(clock w, GetOrCreateCalled (node_of cb)), (clock w, CloseCalled (node_of cb))])"
proof (cases cb)
  case (Dismiss el)
  with try_block_shape [of bootstrap el w] show ?thesis
    by (simp add: dismiss_snd)
qed

lemma try_block_working:
  assumes "working tk"
  shows "\<exists>p. snd (try_block (Some tk) el w) =
           w\<lparr>doc := p, trace := trace w @ [(clock w, GetOrCreateCalled el), (clock w, CloseCalled el)]\<rparr>"
proof -
  obtain r p where g: "getOrCreateInstance tk el (doc w) = (r, p)"
    by (cases "getOrCreateInstance tk el (doc w)")
  with assms obtain bs where r: "r = Inr bs"
    unfolding working_def by (metis fst_conv)
  obtain r' p' where c: "close tk bs p = (r', p')"
    by (cases "close tk bs p")
  with g r show ?thesis by (intro exI [of _ p']) (simp add: try_block_def)
qed

lemma run_timers_None:
  "next_due target (timers w) = None \<Longrightarrow>
     run_timers bootstrap target w = (None, w\<lparr>clock := max (clock w) target\<rparr>)"
  by (subst run_timers.simps) simp

lemma run_timers_Some:
  assumes "next_due target (timers w) = Some t"
  shows "run_timers bootstrap target w = run_timers bootstrap target (fire bootstrap t w)"
proof -
  let ?w2 = "w\<lparr>clock := max (clock w) (due t), timers := remove1 t (timers w),
               trace := trace w @ [(max (clock w) (due t), Fired (tid t) (callback t))]\<rparr>"
  obtain r w3 where rc: "run_callback bootstrap (callback t) ?w2 = (r, w3)"
    by (cases "run_callback bootstrap (callback t) ?w2")
  with run_callback_no_error [of bootstrap "callback t" ?w2] have "r = None" by simp
  with rc assms show ?thesis
    by (subst run_timers.simps) (simp add: fire_def Let_def)
qed

lemma fire_timers: "timers (fire bootstrap t w) = remove1 t (timers w)"
  using run_callback_timers [of bootstrap "callback t"] by (simp add: fire_def)

lemma run_timers_induct [case_names idle fire]:
  assumes idle: "\<And>w. next_due target (timers w) = None \<Longrightarrow> P w"
    and fire: "\<And>w t. next_due target (timers w) = Some t \<Longrightarrow> P (fire bootstrap t w) \<Longrightarrow> P w"
  shows "P w"
proof (induction "length (timers w)" arbitrary: w rule: less_induct)
  case less
  show ?case
  proof (cases "next_due target (timers w)")
    case None
    then show ?thesis by (rule idle)
  next
    case (Some t)
    then have "t \<in> set (timers w)" by (simp add: next_due_mem)
    then have "length (timers (fire bootstrap t w)) < length (timers w)"
      using length_pos_if_in_set [of t "timers w"] by (simp add: fire_timers length_remove1)
    then have "P (fire bootstrap t w)" by (rule less)
    with Some show ?thesis by (rule fire)
  qed
qed

lemma fire_shape:
  "\<exists>p es. fire bootstrap t w =
      w\<lparr>clock := max (clock w) (due t), timers := remove1 t (timers w), doc := p,
        trace := trace w @ (max (clock w) (due t), Fired (tid t) (callback t)) # es\<rparr> \<and>
     (es = [] \<or> es = [(max (clock w) (due t), GetOrCreateCalled (node_of (callback t)))] \<or>
      es = [(max (clock w) (due t), GetOrCreateCalled (node_of (callback t))),
            (max (clock w) (due t), CloseCalled (node_of (callback t)))])"
proof -
  let ?w2 = "w\<lparr>clock := max (clock w) (due t), timers := remove1 t (timers w),
               trace := trace w @ [(max (clock w) (due t), Fired (tid t) (callback t))]\<rparr>"
  from run_callback_shape [of bootstrap "callback t" ?w2]
  obtain p es where eq: "snd (run_callback bootstrap (callback t) ?w2) = ?w2\<lparr>doc := p, trace := trace ?w2 @ es\<rparr>"
    and es: "es = [] \<or> es = [(clock ?w2, GetOrCreateCalled (node_of (callback t)))] \<or>
      es = [(clock ?w2, GetOrCreateCalled (node_of (callback t))), (clock ?w2, CloseCalled (node_of (callback t)))]"
    by blast
  from eq have "fire bootstrap t w =
      w\<lparr>clock := max (clock w) (due t), timers := remove1 t (timers w), doc := p,
        trace := trace w @ (max (clock w) (due t), Fired (tid t) (callback t)) # es\<rparr>"
    by (simp add: fire_def)
  moreover from es have "es = [] \<or> es = [(max (clock w) (due t), GetOrCreateCalled (node_of (callback t)))] \<or>
      es = [(max (clock w) (due t), GetOrCreateCalled (node_of (callback t))),
            (max (clock w) (due t), CloseCalled (node_of (callback t)))]"
    by simp
  ultimately show ?thesis by blast
qed

lemma fired_of_Fired: "fired_of [(c, Fired i cb)] = [(c, node_of cb)]"
  by (cases cb) simp

lemma fire_clock: "clock (fire bootstrap t w) = max (clock w) (due t)"
  using fire_shape [of bootstrap t w] by auto

lemma fire_frame:
  "listeners (fire bootstrap t w) = listeners w"
  "contentLoaded (fire bootstrap t w) = contentLoaded w"
  "nextTimerId (fire bootstrap t w) = nextTimerId w"
  using fire_shape [of bootstrap t w] by auto

lemma fire_fired:
  "fired_of (trace (fire bootstrap t w)) =
     fired_of (trace w) @ [(max (clock w) (due t), node_of (callback t))]"
proof -
  from fire_shape [of bootstrap t w] obtain p es where
    tr: "trace (fire bootstrap t w) = trace w @ (max (clock w) (due t), Fired (tid t) (callback t)) # es"
    and es: "fired_of es = []"
    by auto
  have "fired_of (trace (fire bootstrap t w)) =
      fired_of (trace w) @ fired_of ([(max (clock w) (due t), Fired (tid t) (callback t))] @ es)"
    unfolding tr by (simp add: fired_of_append)
  with es show ?thesis
    by (simp only: fired_of_append fired_of_Fired append_Nil2)
qed

lemma fire_invoked: "invoked_of (trace (fire bootstrap t w)) = invoked_of (trace w)"
  using fire_shape [of bootstrap t w] by (auto simp: invoked_of_append)

lemma fire_closed_subset:
  "set (closed_of (trace (fire bootstrap t w))) \<subseteq> insert (node_of (callback t)) (set (closed_of (trace w)))"
  using fire_shape [of bootstrap t w] by (auto simp: closed_of_append)


lemma fire_closed_working:
  assumes "working tk"
  shows "closed_of (trace (fire (Some tk) t w)) = closed_of (trace w) @ [node_of (callback t)]"
proof (cases "callback t")
  case (Dismiss el)
  let ?w2 = "w\<lparr>clock := max (clock w) (due t), timers := remove1 t (timers w),
               trace := trace w @ [(max (clock w) (due t), Fired (tid t) (callback t))]\<rparr>"
  from try_block_working [OF assms, of el ?w2] obtain p where
    "snd (try_block (Some tk) el ?w2) =
       ?w2\<lparr>doc := p, trace := trace ?w2 @ [(clock ?w2, GetOrCreateCalled el), (clock ?w2, CloseCalled el)]\<rparr>"
    by blast
  with Dismiss show ?thesis
    by (simp add: fire_def dismiss_snd closed_of_append)
qed

lemma earliest_None: "earliest ts = None \<longleftrightarrow> ts = []"
  by (cases ts) (auto split: option.splits)

lemma next_due_None: "next_due target ts = None \<longleftrightarrow> (\<forall>t\<in>set ts. target < due t)"
  by (auto simp: next_due_def earliest_None filter_empty_conv not_le)

lemma earliest_same_due:
  "\<forall>u\<in>set ts. due u = due t \<Longrightarrow> earliest (t # ts) = Some t"
proof (cases "earliest ts")
  case None
  then show ?thesis by simp
next
  case (Some u)
  assume same: "\<forall>u\<in>set ts. due u = due t"
  from Some have "u \<in> set ts" by (rule earliest_mem)
  with same have "due u = due t" by blast
  with Some show ?thesis by simp
qed

lemma next_due_same_due:
  assumes "\<forall>u\<in>set (t # ts). due u = D" and "D \<le> target"
  shows "next_due target (t # ts) = Some t"
proof -
  from assms have "filter (\<lambda>u. due u \<le> target) (t # ts) = t # ts"
    by (simp add: filter_id_conv)
  moreover from assms have "\<forall>u\<in>set ts. due u = due t" by simp
  ultimately show ?thesis
    by (simp only: next_due_def earliest_same_due)
qed

lemma run_timers_no_error: "fst (run_timers bootstrap target w) = None"
proof (induction w rule: run_timers_induct [where target = target and bootstrap = bootstrap])
  case (idle w)
  then show ?case by (simp add: run_timers_None)
next
  case (fire w t)
  then show ?case by (simp add: run_timers_Some)
qed

lemma filter_remove1_out: "\<not> P x \<Longrightarrow> filter P (remove1 x xs) = filter P xs"
  by (induction xs) auto

lemma run_timers_timers:
  "timers (snd (run_timers bootstrap target w)) = filter (\<lambda>t. target < due t) (timers w)"
proof (induction w rule: run_timers_induct [where target = target and bootstrap = bootstrap])
  case (idle w)
  then have "\<forall>t\<in>set (timers w). target < due t" by (simp add: next_due_None)
  then have "filter (\<lambda>t. target < due t) (timers w) = timers w" by (simp add: filter_id_conv)
  with idle show ?case by (simp add: run_timers_None)
next
  case (fire w t)
  from fire.hyps have "\<not> target < due t" by (auto dest: next_due_mem)
  then have "filter (\<lambda>t. target < due t) (remove1 t (timers w)) = filter (\<lambda>t. target < due t) (timers w)"
    by (rule filter_remove1_out)
  with fire show ?case by (simp add: run_timers_Some fire_timers)
qed

lemma run_timers_clock: "clock (snd (run_timers bootstrap target w)) = max (clock w) target"
proof (induction w rule: run_timers_induct [where target = target and bootstrap = bootstrap])
  case (idle w)
  then show ?case by (simp add: run_timers_None)
next
  case (fire w t)
  from fire.hyps have "due t \<le> target" by (auto dest: next_due_mem)
  with fire show ?case by (simp add: run_timers_Some fire_clock)
qed

lemma run_timers_frame:
  "listeners (snd (run_timers bootstrap target w)) = listeners w \<and>
   contentLoaded (snd (run_timers bootstrap target w)) = contentLoaded w \<and>
   nextTimerId (snd (run_timers bootstrap target w)) = nextTimerId w \<and>
   invoked_of (trace (snd (run_timers bootstrap target w))) = invoked_of (trace w)"
proof (induction w rule: run_timers_induct [where target = target and bootstrap = bootstrap])
  case (idle w)
  then show ?case by (simp add: run_timers_None)
next
  case (fire w t)
  then show ?case by (simp add: run_timers_Some fire_frame fire_invoked)
qed



lemma run_timers_idle:
  assumes "\<forall>t\<in>set (timers w). target < due t"
  shows "run_timers bootstrap target w = (None, w\<lparr>clock := max (clock w) target\<rparr>)"
  using assms by (simp add: run_timers_None next_due_None)

lemma run_timers_same_due_fired:
  assumes "\<forall>t\<in>set (timers w). due t = D" and "D \<le> target"
  shows "fired (snd (run_timers bootstrap target w)) =
           fired w @ map (\<lambda>t. (max (clock w) D, node_of (callback t))) (timers w)"
  using assms(1)
proof (induction ts \<equiv> "timers w" arbitrary: w)
  case Nil
  then have "next_due target (timers w) = None" by (simp add: next_due_None)
  with Nil show ?case by (simp add: run_timers_None fired_def)
next
  case (Cons t ts)
  from Cons.hyps(2) [symmetric] Cons.prems assms(2) have nd: "next_due target (timers w) = Some t"
    by (simp only: next_due_same_due)
  let ?v = "fire bootstrap t w"
  from Cons.hyps(2) [symmetric] have tv: "timers ?v = ts" by (simp add: fire_timers)
  from Cons.hyps(2) [symmetric] Cons.prems have dt: "due t = D" and rest: "\<forall>u\<in>set ts. due u = D"
    by simp_all
  from tv rest have "fired (snd (run_timers bootstrap target ?v)) =
      fired ?v @ map (\<lambda>t. (max (clock ?v) D, node_of (callback t))) (timers ?v)"
    by (intro Cons.hyps(1)) simp_all
  with nd tv dt Cons.hyps(2) [symmetric] show ?case
    by (simp add: run_timers_Some fired_def fire_fired fire_clock)
qed

lemma run_timers_same_due_closed:
  assumes "working tk" and "\<forall>t\<in>set (timers w). due t = D" and "D \<le> target"
  shows "closed (snd (run_timers (Some tk) target w)) = closed w @ pending w"
  using assms(2)
proof (induction ts \<equiv> "timers w" arbitrary: w)
  case Nil
  then have "next_due target (timers w) = None" by (simp add: next_due_None)
  with Nil show ?case by (simp add: run_timers_None closed_def pending_def)
next
  case (Cons t ts)
  from Cons.hyps(2) [symmetric] Cons.prems assms(3) have nd: "next_due target (timers w) = Some t"
    by (simp only: next_due_same_due)
  let ?v = "fire (Some tk) t w"
  from Cons.hyps(2) [symmetric] have tv: "timers ?v = ts" by (simp add: fire_timers)
  from Cons.hyps(2) [symmetric] Cons.prems have rest: "\<forall>u\<in>set ts. due u = D"
    by simp
  from tv rest have "closed (snd (run_timers (Some tk) target ?v)) = closed ?v @ pending ?v"
    by (intro Cons.hyps(1)) simp_all
  with nd tv Cons.hyps(2) [symmetric] show ?case
    by (simp add: run_timers_Some closed_def pending_def fire_closed_working [OF assms(1)])
qed

lemma fire_fired_nodes:
  "snd ` set (fired (fire bootstrap t w)) = insert (node_of (callback t)) (snd ` set (fired w))"
  by (simp add: fired_def fire_fired)

lemma fire_pending_subset: "set (pending (fire bootstrap t w)) \<subseteq> set (pending w)"
proof -
  have "set (remove1 t (timers w)) \<subseteq> set (timers w)" by (rule set_remove1_subset)
  then have "(\<lambda>t. node_of (callback t)) ` set (remove1 t (timers w)) \<subseteq> (\<lambda>t. node_of (callback t)) ` set (timers w)"
    by (rule image_mono)
  then show ?thesis by (simp add: pending_def fire_timers)
qed

lemma run_timers_only_pending:
  "set (closed (snd (run_timers bootstrap target w))) \<subseteq> set (closed w) \<union> set (pending w) \<and>
   snd ` set (fired (snd (run_timers bootstrap target w))) \<subseteq> snd ` set (fired w) \<union> set (pending w) \<and>
   set (pending (snd (run_timers bootstrap target w))) \<subseteq> set (pending w)"
proof (induction w rule: run_timers_induct [where target = target and bootstrap = bootstrap])
  case (idle w)
  then show ?case by (simp add: run_timers_None closed_def fired_def pending_def)
next
  case (fire w t)
  let ?F = "fire bootstrap t w"
  let ?R = "snd (run_timers bootstrap target ?F)"
  from fire.hyps have mem: "t \<in> set (timers w)" by (simp add: next_due_mem)
  then have n: "node_of (callback t) \<in> set (pending w)" by (simp add: pending_def)
  have p: "set (pending ?F) \<subseteq> set (pending w)"
    by (rule fire_pending_subset)
  have "set (closed ?F) \<subseteq> insert (node_of (callback t)) (set (closed w))"
    using fire_closed_subset [of bootstrap t w] by (simp add: closed_def)
  with n have c: "set (closed ?F) \<subseteq> set (closed w) \<union> set (pending w)"
    by blast
  have f: "snd ` set (fired ?F) \<subseteq> snd ` set (fired w) \<union> set (pending w)"
    using n by (simp add: fire_fired_nodes)
  from fire.IH have "set (closed ?R) \<subseteq> set (closed ?F) \<union> set (pending ?F)" by simp
  with c p have 1: "set (closed ?R) \<subseteq> set (closed w) \<union> set (pending w)" by blast
  from fire.IH have "snd ` set (fired ?R) \<subseteq> snd ` set (fired ?F) \<union> set (pending ?F)" by simp
  with f p have 2: "snd ` set (fired ?R) \<subseteq> snd ` set (fired w) \<union> set (pending w)" by blast
  from fire.IH have "set (pending ?R) \<subseteq> set (pending ?F)" by simp
  with p have 3: "set (pending ?R) \<subseteq> set (pending w)" by blast
  from 1 2 3 fire.hyps show ?case by (simp add: run_timers_Some)
qed

lemma nodes_new_timers: "map (\<lambda>t. node_of (callback t)) (new_timers k c ns) = ns"
  by (induction ns arbitrary: k) auto

lemma ready_handler_frame:
  "doc (ready_handler w) = doc w"
  "clock (ready_handler w) = clock w"
  "trace (ready_handler w) = trace w"
  "listeners (ready_handler w) = listeners w"
  "contentLoaded (ready_handler w) = contentLoaded w"
  "timers (ready_handler w) = timers w @ new_timers (nextTimerId w) (clock w) (eligible (doc w))"
  "nextTimerId (ready_handler w) = nextTimerId w + length (eligible (doc w))"
  by (simp_all add: ready_handler_eq)

lemma pending_ready_handler: "pending (ready_handler w) = pending w @ eligible (doc w)"
  by (simp add: pending_def ready_handler_frame nodes_new_timers)

lemma call_listener_frame:
  "doc (call_listener l w) = doc w"
  "clock (call_listener l w) = clock w"
  "trace (call_listener l w) = trace w @ [(clock w, Invoked l)]"
  "listeners (call_listener l w) = listeners w"
  "contentLoaded (call_listener l w) = contentLoaded w"
  "timers (call_listener l w) = timers w @ new_timers (nextTimerId w) (clock w) (eligible (doc w))"
  "nextTimerId (call_listener l w) = nextTimerId w + length (eligible (doc w))"
  by (cases l; simp add: ready_handler_frame)+

lemma call_listener_observed:
  "pending (call_listener l w) = pending w @ eligible (doc w)"
  "closed (call_listener l w) = closed w"
  "fired (call_listener l w) = fired w"
  "invocations (call_listener l w) = invocations w @ [clock w]"
  by (simp_all add: pending_def closed_def fired_def invocations_def call_listener_frame
      nodes_new_timers closed_of_append fired_of_append invoked_of_append)

lemma fold_call_listener:
  "doc (fold call_listener ls w) = doc w \<and>
   clock (fold call_listener ls w) = clock w \<and>
   contentLoaded (fold call_listener ls w) = contentLoaded w \<and>
   listeners (fold call_listener ls w) = listeners w \<and>
   closed (fold call_listener ls w) = closed w \<and>
   fired (fold call_listener ls w) = fired w \<and>
   set (pending (fold call_listener ls w)) \<subseteq> set (pending w) \<union> set (eligible (doc w))"
proof (induction ls arbitrary: w)
  case Nil
  show ?case by simp
next
  case (Cons l ls)
  let ?v = "call_listener l w"
  from Cons [of ?v] have "set (pending (fold call_listener ls ?v)) \<subseteq> set (pending ?v) \<union> set (eligible (doc ?v))"
    by simp
  then have "set (pending (fold call_listener ls ?v)) \<subseteq> set (pending w) \<union> set (eligible (doc w))"
    by (simp add: call_listener_observed call_listener_frame)
  with Cons [of ?v] show ?case
    by (simp add: call_listener_observed call_listener_frame)
qed

lemma dispatchEvent_observed:
  "doc (dispatchEvent ty w) = doc w"
  "clock (dispatchEvent ty w) = clock w"
  "contentLoaded (dispatchEvent ty w) = contentLoaded w"
  "listeners (dispatchEvent ty w) = listeners w"
  "closed (dispatchEvent ty w) = closed w"
  "fired (dispatchEvent ty w) = fired w"
  "set (pending (dispatchEvent ty w)) \<subseteq> set (pending w) \<union> set (eligible (doc w))"
  using fold_call_listener [of "map snd (filter (\<lambda>(ty', l). ty' = ty) (listeners w))" w]
  by (simp_all add: dispatchEvent_def)

lemma dispatchEvent_single:
  "listeners w = [(ty, l)] \<Longrightarrow> dispatchEvent ty w = call_listener l w"
  by (simp add: dispatchEvent_def)

lemma step_no_error: "fst (step bootstrap a w) = None"
  by (cases a) (simp_all add: run_timers_no_error)

lemma run_Cons: "run bootstrap (a # as) w = run bootstrap as (snd (step bootstrap a w))"
  using step_no_error [of bootstrap a w] by (cases "step bootstrap a w") simp

lemma run_append: "run bootstrap (as @ bs) w = run bootstrap bs (snd (run bootstrap as w))"
proof (induction as arbitrary: w)
  case Nil
  show ?case by simp
next
  case (Cons a as)
  then show ?case by (simp only: append_Cons run_Cons)
qed

lemma run_no_error: "fst (run bootstrap as w) = None"
proof (induction as arbitrary: w)
  case Nil
  show ?case by simp
next
  case (Cons a as)
  then show ?case by (simp only: run_Cons)
qed

lemma step_loaded:
  assumes "contentLoaded w"
  shows "contentLoaded (snd (step bootstrap a w)) \<and>
         set (pending (snd (step bootstrap a w))) \<subseteq> set (pending w) \<and>
         set (closed (snd (step bootstrap a w))) \<subseteq> set (closed w) \<union> set (pending w) \<and>
         snd ` set (fired (snd (step bootstrap a w))) \<subseteq> snd ` set (fired w) \<union> set (pending w) \<and>
         invocations (snd (step bootstrap a w)) = invocations w \<and>
         nextTimerId (snd (step bootstrap a w)) = nextTimerId w"
proof (cases a)
  case EvalScript
  with assms show ?thesis
    by (simp add: main_js_def addEventListener_def pending_def closed_def fired_def invocations_def)
next
  case FireReady
  with assms show ?thesis by simp
next
  case (Advance d)
  with assms run_timers_only_pending [of bootstrap "clock w + d" w]
    run_timers_frame [of bootstrap "clock w + d" w]
  show ?thesis by (simp add: invocations_def)
next
  case (Mutate f)
  with assms show ?thesis
    by (simp add: pending_def closed_def fired_def invocations_def)
qed

lemma run_loaded:
  assumes "contentLoaded w"
  shows "contentLoaded (snd (run bootstrap as w)) \<and>
         set (pending (snd (run bootstrap as w))) \<subseteq> set (pending w) \<and>
         set (closed (snd (run bootstrap as w))) \<subseteq> set (closed w) \<union> set (pending w) \<and>
         snd ` set (fired (snd (run bootstrap as w))) \<subseteq> snd ` set (fired w) \<union> set (pending w) \<and>
         invocations (snd (run bootstrap as w)) = invocations w \<and>
         nextTimerId (snd (run bootstrap as w)) = nextTimerId w"
  using assms
proof (induction as arbitrary: w)
  case Nil
  then show ?case by simp
next
  case (Cons a as)
  let ?v = "snd (step bootstrap a w)"
  let ?r = "snd (run bootstrap as ?v)"
  from step_loaded [OF Cons.prems, of bootstrap a] have
    l: "contentLoaded ?v" and p: "set (pending ?v) \<subseteq> set (pending w)"
    and c: "set (closed ?v) \<subseteq> set (closed w) \<union> set (pending w)"
    and f: "snd ` set (fired ?v) \<subseteq> snd ` set (fired w) \<union> set (pending w)"
    and i: "invocations ?v = invocations w" and k: "nextTimerId ?v = nextTimerId w"
    by simp_all
  from Cons.IH [OF l] have
    l': "contentLoaded ?r" and p': "set (pending ?r) \<subseteq> set (pending ?v)"
    and c': "set (closed ?r) \<subseteq> set (closed ?v) \<union> set (pending ?v)"
    and f': "snd ` set (fired ?r) \<subseteq> snd ` set (fired ?v) \<union> set (pending ?v)"
    and i': "invocations ?r = invocations ?v" and k': "nextTimerId ?r = nextTimerId ?v"
    by simp_all
  from p p' have 1: "set (pending ?r) \<subseteq> set (pending w)" by blast
  from c c' p have 2: "set (closed ?r) \<subseteq> set (closed w) \<union> set (pending w)" by blast
  from f f' p have 3: "snd ` set (fired ?r) \<subseteq> snd ` set (fired w) \<union> set (pending w)" by blast
  from l' 1 2 3 i i' k k' show ?case unfolding run_Cons by simp
qed

lemma step_FireReady_observed:
  "contentLoaded (snd (step bootstrap FireReady w)) \<and>
   set (pending (snd (step bootstrap FireReady w))) \<subseteq> set (pending w) \<union> set (eligible (doc w)) \<and>
   closed (snd (step bootstrap FireReady w)) = closed w \<and>
   fired (snd (step bootstrap FireReady w)) = fired w"
proof (cases "contentLoaded w")
  case True
  then show ?thesis by auto
next
  case False
  let ?v = "w\<lparr>contentLoaded := True\<rparr>"
  have "set (pending (dispatchEvent ''DOMContentLoaded'' ?v)) \<subseteq> set (pending ?v) \<union> set (eligible (doc ?v))"
    by (rule dispatchEvent_observed)
  moreover have "pending ?v = pending w" "closed ?v = closed w" "fired ?v = fired w"
    by (simp_all add: pending_def closed_def fired_def)
  ultimately show ?thesis using False
    by (simp add: dispatchEvent_observed)
qed

lemma never_touched:
  assumes "n \<notin> set (eligible (doc w))"
    and "n \<notin> set (pending w)" and "n \<notin> set (closed w)" and "n \<notin> snd ` set (fired w)"
  shows "n \<notin> set (pending (snd (run bootstrap (FireReady # as) w))) \<and>
         n \<notin> set (closed (snd (run bootstrap (FireReady # as) w))) \<and>
         n \<notin> snd ` set (fired (snd (run bootstrap (FireReady # as) w)))"
proof -
  let ?v = "snd (step bootstrap FireReady w)"
  let ?r = "snd (run bootstrap as ?v)"
  from step_FireReady_observed [of bootstrap w] assms have
    l: "contentLoaded ?v" and p: "n \<notin> set (pending ?v)" and c: "n \<notin> set (closed ?v)"
    and f: "n \<notin> snd ` set (fired ?v)"
    by auto
  from run_loaded [OF l, of bootstrap as] have
    "set (pending ?r) \<subseteq> set (pending ?v)"
    "set (closed ?r) \<subseteq> set (closed ?v) \<union> set (pending ?v)"
    "snd ` set (fired ?r) \<subseteq> snd ` set (fired ?v) \<union> set (pending ?v)"
    by simp_all
  with p c f have "n \<notin> set (pending ?r) \<and> n \<notin> set (closed ?r) \<and> n \<notin> snd ` set (fired ?r)"
    by blast
  then show ?thesis unfolding run_Cons by simp
qed

lemma scheduled_new_timers:
  "map (\<lambda>t. (node_of (callback t), due t - c)) (new_timers k c ns) = map (\<lambda>n. (n, 4000)) ns"
  by (induction ns arbitrary: k) auto

lemma scheduled_by_eq: "scheduled_by w = map (\<lambda>n. (n, 4000)) (eligible (doc w))"
  by (simp add: scheduled_by_def ready_handler_frame scheduled_new_timers)

lemma eligible_iff:
  "n \<in> set (eligible p) \<longleftrightarrow>
     n \<in> set (elements p) \<and> ''alert'' \<in> set (classList p n) \<and> ''alert-danger'' \<notin> set (classList p n)"
  by (auto simp: eligible_def querySelectorAll_class_def contains_def)

lemma eligible_filter:
  "eligible p =
     filter (\<lambda>n. ''alert'' \<in> set (classList p n) \<and> ''alert-danger'' \<notin> set (classList p n)) (elements p)"
  by (simp add: eligible_def querySelectorAll_class_def contains_def conj_commute)

lemma eligible_cong:
  assumes "elements p = elements q"
    and "\<forall>n\<in>set (elements p). set (classList p n) = set (classList q n)"
  shows "eligible p = eligible q"
  unfolding eligible_filter using assms by (intro filter_cong) auto

lemma step_before_due:
  assumes "contentLoaded w" and "\<forall>t\<in>set (timers w). clock w + elapsed [a] < due t"
  shows "contentLoaded (snd (step bootstrap a w)) \<and>
         timers (snd (step bootstrap a w)) = timers w \<and>
         trace (snd (step bootstrap a w)) = trace w \<and>
         clock (snd (step bootstrap a w)) = clock w + elapsed [a]"
proof (cases a)
  case EvalScript
  with assms show ?thesis by (simp add: main_js_def addEventListener_def)
next
  case FireReady
  with assms show ?thesis by simp
next
  case (Advance d)
  with assms(2) have "\<forall>t\<in>set (timers w). clock w + d < due t" by simp
  then have "run_timers bootstrap (clock w + d) w = (None, w\<lparr>clock := max (clock w) (clock w + d)\<rparr>)"
    by (rule run_timers_idle)
  with assms(1) Advance show ?thesis by simp
next
  case (Mutate f)
  with assms show ?thesis by simp
qed

lemma elapsed_Cons: "elapsed (a # as) = elapsed [a] + elapsed as"
  by (cases a) simp_all

lemma run_before_due:
  assumes "contentLoaded w" and "\<forall>t\<in>set (timers w). clock w + elapsed as < due t"
  shows "contentLoaded (snd (run bootstrap as w)) \<and>
         timers (snd (run bootstrap as w)) = timers w \<and>
         trace (snd (run bootstrap as w)) = trace w \<and>
         clock (snd (run bootstrap as w)) = clock w + elapsed as"
  using assms
proof (induction as arbitrary: w)
  case Nil
  then show ?case by simp
next
  case (Cons a as)
  let ?v = "snd (step bootstrap a w)"
  from Cons.prems(2) have "\<forall>t\<in>set (timers w). clock w + elapsed [a] < due t"
    by (subst (asm) elapsed_Cons) auto
  from step_before_due [OF Cons.prems(1) this, of bootstrap] have
    v: "contentLoaded ?v" "timers ?v = timers w" "trace ?v = trace w" "clock ?v = clock w + elapsed [a]"
    by simp_all
  from Cons.prems(2) v have "\<forall>t\<in>set (timers ?v). clock ?v + elapsed as < due t"
    by (subst (asm) elapsed_Cons) (simp add: add.assoc)
  from Cons.IH [OF v(1) this] v show ?case
    unfolding run_Cons by (subst elapsed_Cons) simp
qed

lemma step_quiet_idle:
  assumes "quiet a" and "timers w = []"
  shows "timers (snd (step bootstrap a w)) = [] \<and>
         trace (snd (step bootstrap a w)) = trace w \<and>
         listeners (snd (step bootstrap a w)) = listeners w \<and>
         contentLoaded (snd (step bootstrap a w)) = contentLoaded w \<and>
         nextTimerId (snd (step bootstrap a w)) = nextTimerId w \<and>
         clock (snd (step bootstrap a w)) = clock w + elapsed [a]"
proof (cases a)
  case (Advance d)
  from assms(2) have "\<forall>t\<in>set (timers w). clock w + d < due t" by simp
  then have "run_timers bootstrap (clock w + d) w = (None, w\<lparr>clock := max (clock w) (clock w + d)\<rparr>)"
    by (rule run_timers_idle)
  with assms(2) Advance show ?thesis by simp
next
  case (Mutate f)
  with assms show ?thesis by simp
qed (use assms in simp_all)

lemma run_quiet_idle:
  assumes "list_all quiet as" and "timers w = []"
  shows "timers (snd (run bootstrap as w)) = [] \<and>
         trace (snd (run bootstrap as w)) = trace w \<and>
         listeners (snd (run bootstrap as w)) = listeners w \<and>
         contentLoaded (snd (run bootstrap as w)) = contentLoaded w \<and>
         nextTimerId (snd (run bootstrap as w)) = nextTimerId w \<and>
         clock (snd (run bootstrap as w)) = clock w + elapsed as"
  using assms
proof (induction as arbitrary: w)
  case Nil
  then show ?case by simp
next
  case (Cons a as)
  let ?v = "snd (step bootstrap a w)"
  from Cons.prems have q: "quiet a" and qs: "list_all quiet as" by simp_all
  from step_quiet_idle [OF q Cons.prems(2), of bootstrap] have
    v: "timers ?v = []" "trace ?v = trace w" "listeners ?v = listeners w"
       "contentLoaded ?v = contentLoaded w" "nextTimerId ?v = nextTimerId w"
       "clock ?v = clock w + elapsed [a]"
    by simp_all
  from Cons.IH [OF qs v(1)] v show ?case
    unfolding run_Cons by (subst elapsed_Cons) simp
qed

lemma filter_eq_distinct: "distinct xs \<Longrightarrow> n \<in> set xs \<Longrightarrow> filter (\<lambda>m. m = n) xs = [n]"
proof (induction xs)
  case Nil
  then show ?case by simp
next
  case (Cons x xs)
  show ?case
  proof (cases "x = n")
    case True
    with Cons.prems have "n \<notin> set xs" by simp
    then have "filter (\<lambda>m. m = n) xs = []" by (auto simp: filter_empty_conv)
    with True show ?thesis by simp
  next
    case False
    with Cons show ?thesis by simp
  qed
qed

lemma step_FireReady_single:
  assumes "\<not> contentLoaded w" and "listeners w = [(''DOMContentLoaded'', AutoDismiss)]"
  shows "snd (step bootstrap FireReady w) = call_listener AutoDismiss (w\<lparr>contentLoaded := True\<rparr>)"
  using assms by (simp add: dispatchEvent_def)

lemma distinct_eligible: "distinct (elements p) \<Longrightarrow> distinct (eligible p)"
  by (simp add: eligible_def querySelectorAll_class_def)


lemma step_FireReady_loaded:
  assumes "\<not> contentLoaded w" and "listeners w = [(''DOMContentLoaded'', AutoDismiss)]"
  shows "contentLoaded (snd (step bootstrap FireReady w))"
        "doc (snd (step bootstrap FireReady w)) = doc w"
        "clock (snd (step bootstrap FireReady w)) = clock w"
        "timers (snd (step bootstrap FireReady w)) =
           timers w @ new_timers (nextTimerId w) (clock w) (eligible (doc w))"
        "nextTimerId (snd (step bootstrap FireReady w)) = nextTimerId w + length (eligible (doc w))"
        "trace (snd (step bootstrap FireReady w)) = trace w @ [(clock w, Invoked AutoDismiss)]"
  unfolding step_FireReady_single [OF assms] by (simp_all add: call_listener_frame del: call_listener.simps)

lemma load_then_wait:
  assumes "\<not> contentLoaded w" and "listeners w = [(''DOMContentLoaded'', AutoDismiss)]"
    and "timers w = []" and "elapsed pre < 4000"
  shows "contentLoaded (snd (run bootstrap (FireReady # pre) w))"
        "timers (snd (run bootstrap (FireReady # pre) w)) =
           new_timers (nextTimerId w) (clock w) (eligible (doc w))"
        "trace (snd (run bootstrap (FireReady # pre) w)) = trace w @ [(clock w, Invoked AutoDismiss)]"
        "clock (snd (run bootstrap (FireReady # pre) w)) = clock w + elapsed pre"
proof -
  let ?v = "snd (step bootstrap FireReady w)"
  note v = step_FireReady_loaded [OF assms(1,2), of bootstrap]
  from assms(3,4) v have "\<forall>t\<in>set (timers ?v). clock ?v + elapsed pre < due t"
    by (auto dest: due_new_timers)
  from run_before_due [OF v(1) this, of bootstrap] v assms(3)
  show "contentLoaded (snd (run bootstrap (FireReady # pre) w))"
        "timers (snd (run bootstrap (FireReady # pre) w)) =
           new_timers (nextTimerId w) (clock w) (eligible (doc w))"
        "trace (snd (run bootstrap (FireReady # pre) w)) = trace w @ [(clock w, Invoked AutoDismiss)]"
        "clock (snd (run bootstrap (FireReady # pre) w)) = clock w + elapsed pre"
    unfolding run_Cons by simp_all
qed

lemma run_snoc:
  "snd (run bootstrap (as @ [a]) w) = snd (step bootstrap a (snd (run bootstrap as w)))"
  by (simp add: run_append run_Cons del: run.simps(2))

lemma load_wait_fire:
  assumes "\<not> contentLoaded w" and "listeners w = [(''DOMContentLoaded'', AutoDismiss)]"
    and "timers w = []" and "elapsed pre < 4000" and "4000 \<le> elapsed pre + d"
  shows "fired (snd (run bootstrap (FireReady # pre @ [Advance d]) w)) =
           fired w @ map (\<lambda>n. (clock w + 4000, n)) (eligible (doc w))"
proof -
  let ?u = "snd (run bootstrap (FireReady # pre) w)"
  note u = load_then_wait [OF assms(1-4), of bootstrap]
  have same: "\<forall>t\<in>set (timers ?u). due t = clock w + 4000"
    using u(2) by (auto dest: due_new_timers)
  from assms(5) u(4) have le: "clock w + 4000 \<le> clock ?u + d" by simp
  from assms(4) u(4) have mx: "max (clock ?u) (clock w + 4000) = clock w + 4000" by simp
  have "fired (snd (run_timers bootstrap (clock ?u + d) ?u)) =
      fired ?u @ map (\<lambda>t. (max (clock ?u) (clock w + 4000), node_of (callback t))) (timers ?u)"
    using same le by (rule run_timers_same_due_fired)
  also have "fired ?u = fired w"
    by (simp add: fired_def u(3) fired_of_append del: run.simps)
  also have "map (\<lambda>t. (max (clock ?u) (clock w + 4000), node_of (callback t))) (timers ?u) =
      map (\<lambda>n. (clock w + 4000, n)) (map (\<lambda>t. node_of (callback t)) (timers ?u))"
    unfolding mx by simp
  also have "map (\<lambda>t. node_of (callback t)) (timers ?u) = eligible (doc w)"
    unfolding u(2) by (rule nodes_new_timers)
  finally show ?thesis
    using run_snoc [of bootstrap "FireReady # pre" "Advance d" w] by simp
qed

lemma load_wait_close:
  assumes "working tk"
    and "\<not> contentLoaded w" and "listeners w = [(''DOMContentLoaded'', AutoDismiss)]"
    and "timers w = []" and "elapsed pre < 4000" and "4000 \<le> elapsed pre + d"
  shows "closed (snd (run (Some tk) (FireReady # pre @ [Advance d]) w)) =
           closed w @ eligible (doc w)"
proof -
  let ?u = "snd (run (Some tk) (FireReady # pre) w)"
  note u = load_then_wait [OF assms(2-5), of "Some tk"]
  have same: "\<forall>t\<in>set (timers ?u). due t = clock w + 4000"
    using u(2) by (auto dest: due_new_timers)
  from assms(6) u(4) have le: "clock w + 4000 \<le> clock ?u + d" by simp
  have "closed (snd (run_timers (Some tk) (clock ?u + d) ?u)) = closed ?u @ pending ?u"
    using assms(1) same le by (rule run_timers_same_due_closed)
  also have "closed ?u = closed w"
    by (simp add: closed_def u(3) closed_of_append del: run.simps)
  also have "pending ?u = eligible (doc w)"
    unfolding pending_def u(2) by (rule nodes_new_timers)
  finally show ?thesis
    using run_snoc [of "Some tk" "FireReady # pre" "Advance d" w] by simp
qed

lemma no_timer_for:
  "n \<notin> set ns \<Longrightarrow> filter (\<lambda>t. callback t = Dismiss n) (new_timers k c ns) = []"
  by (induction ns arbitrary: k) auto

lemma one_timer_for:
  "distinct ns \<Longrightarrow> n \<in> set ns \<Longrightarrow>
     \<exists>t. filter (\<lambda>t. callback t = Dismiss n) (new_timers k c ns) = [t] \<and> due t = c + 4000"
proof (induction ns arbitrary: k)
  case Nil
  then show ?case by simp
next
  case (Cons m ns)
  show ?case
  proof (cases "m = n")
    case True
    with Cons.prems have "n \<notin> set ns" by simp
    then have "filter (\<lambda>t. callback t = Dismiss n) (new_timers (Suc k) c ns) = []"
      by (rule no_timer_for)
    with True show ?thesis by simp
  next
    case False
    with Cons.prems have "distinct ns" "n \<in> set ns" by simp_all
    from Cons.IH [OF this, of "Suc k"] False show ?thesis by simp
  qed
qed

lemma fired_at_scheduled:
  assumes "fired w = map (\<lambda>m. (D, m)) ns" and "distinct ns" and "n \<in> set ns"
  shows "fired_at n w = [D]"
proof -
  have "map fst (filter (\<lambda>(c, m). m = n) (map (\<lambda>m. (D, m)) xs)) = map (\<lambda>m. D) (filter (\<lambda>m. m = n) xs)" for xs
    by (induction xs) auto
  with assms show ?thesis
    by (simp add: fired_at_def filter_eq_distinct)
qed

text \<open>
  The listener is tied to the event: a script that is evaluated only after
  \<^verbatim>\<open>DOMContentLoaded\<close> has been dispatched registers a listener that is never called,
  and schedules nothing.
\<close>

lemma script_after_ready_never_runs:
  assumes "contentLoaded w"
  shows "invocations (snd (run bootstrap (EvalScript # as) w)) = invocations w \<and>
         nextTimerId (snd (run bootstrap (EvalScript # as) w)) = nextTimerId w"
  using run_loaded [OF assms, of bootstrap "EvalScript # as"] by blast

lemma try_block_doc: "doc (snd (try_block (Some tk) el w)) = closing tk el (doc w)"
proof -
  obtain r p where g: "getOrCreateInstance tk el (doc w) = (r, p)"
    by (cases "getOrCreateInstance tk el (doc w)")
  show ?thesis
  proof (cases r)
    case (Inl e)
    with g show ?thesis by (simp add: try_block_def closing_def)
  next
    case (Inr bs)
    obtain r' p' where "close tk bs p = (r', p')"
      by (cases "close tk bs p")
    with g Inr show ?thesis by (simp add: try_block_def closing_def)
  qed
qed

lemma fire_doc: "doc (fire (Some tk) t w) = closing tk (node_of (callback t)) (doc w)"
proof (cases "callback t")
  case (Dismiss el)
  then show ?thesis by (simp add: fire_def dismiss_snd try_block_doc)
qed

lemma run_timers_same_due_doc:
  assumes "\<forall>t\<in>set (timers w). due t = D" and "D \<le> target"
  shows "doc (snd (run_timers (Some tk) target w)) = fold (closing tk) (pending w) (doc w)"
  using assms(1)
proof (induction ts \<equiv> "timers w" arbitrary: w)
  case Nil
  then have "next_due target (timers w) = None" by (simp add: next_due_None)
  with Nil show ?case by (simp add: run_timers_None pending_def)
next
  case (Cons t ts)
  from Cons.hyps(2) [symmetric] Cons.prems assms(2) have nd: "next_due target (timers w) = Some t"
    by (simp only: next_due_same_due)
  let ?v = "fire (Some tk) t w"
  from Cons.hyps(2) [symmetric] have tv: "timers ?v = ts" by (simp add: fire_timers)
  from Cons.hyps(2) [symmetric] Cons.prems have rest: "\<forall>u\<in>set ts. due u = D"
    by simp
  from tv rest have "doc (snd (run_timers (Some tk) target ?v)) = fold (closing tk) (pending ?v) (doc ?v)"
    by (intro Cons.hyps(1)) simp_all
  with nd tv Cons.hyps(2) [symmetric] show ?case
    by (simp add: run_timers_Some pending_def fire_doc)
qed

lemma load_fire_doc:
  assumes "\<not> contentLoaded w" and "listeners w = [(''DOMContentLoaded'', AutoDismiss)]"
    and "timers w = []" and "4000 \<le> d"
  shows "doc (snd (run (Some tk) [FireReady, Advance d] w)) = fold (closing tk) (eligible (doc w)) (doc w)"
proof -
  let ?u = "snd (step (Some tk) FireReady w)"
  note u = step_FireReady_loaded [OF assms(1,2), of "Some tk"]
  from u(4) assms(3) have tu: "timers ?u = new_timers (nextTimerId w) (clock w) (eligible (doc w))"
    by simp
  have same: "\<forall>t\<in>set (timers ?u). due t = clock w + 4000"
    unfolding tu by (auto dest: due_new_timers)
  from assms(4) u(3) have le: "clock w + 4000 \<le> clock ?u + d" by simp
  have "doc (snd (run_timers (Some tk) (clock ?u + d) ?u)) = fold (closing tk) (pending ?u) (doc ?u)"
    using same le by (rule run_timers_same_due_doc)
  also have "pending ?u = eligible (doc w)"
    unfolding pending_def tu by (rule nodes_new_timers)
  finally show ?thesis
    unfolding run_Cons using u(2) by simp
qed

lemma load_idle:
  assumes "\<not> contentLoaded w" and "listeners w = [(''DOMContentLoaded'', AutoDismiss)]"
    and "timers w = []" and "e < 4000"
  shows "doc (snd (run bootstrap [FireReady, Advance e] w)) = doc w"
        "closed (snd (run bootstrap [FireReady, Advance e] w)) = closed w"
proof -
  let ?u = "snd (step bootstrap FireReady w)"
  note u = step_FireReady_loaded [OF assms(1,2), of bootstrap]
  from u(4) assms(3) have tu: "timers ?u = new_timers (nextTimerId w) (clock w) (eligible (doc w))"
    by simp
  from assms(4) u(3) have "\<forall>t\<in>set (timers ?u). clock ?u + e < due t"
    unfolding tu by (auto dest: due_new_timers)
  then have r: "run_timers bootstrap (clock ?u + e) ?u = (None, ?u\<lparr>clock := max (clock ?u) (clock ?u + e)\<rparr>)"
    by (rule run_timers_idle)
  show "doc (snd (run bootstrap [FireReady, Advance e] w)) = doc w"
    unfolding run_Cons using r u(2) by simp
  show "closed (snd (run bootstrap [FireReady, Advance e] w)) = closed w"
    unfolding run_Cons using r u(6) by (simp add: closed_def closed_of_append)
qed

section \<open>The properties\<close>

text \<open>
  C1. Take a page in which nothing is pending yet, and an alert element without
  \<^verbatim>\<open>alert-danger\<close> when the listener runs. The listener leaves exactly one timer for
  it, due 4000 after the clock value at which the listener ran (not after some fixed
  page-load time), and every timer has an id of its own. Under the simulated clock its
  callback has not run as long as less than 4000 has passed, and once 4000 or more has
  passed it has run exactly once, at that due time.
\<close>

theorem eligible_alert_gets_one_timer:
  assumes "distinct (elements (doc w))" and "timers w = []" and "fired w = []"
    and "n \<in> set (querySelectorAll_class ''alert'' (doc w))"
    and "\<not> contains (classList (doc w) n) ''alert-danger''"
  shows "(\<exists>t. filter (\<lambda>t. callback t = Dismiss n) (timers (ready_handler w)) = [t] \<and>
              due t = clock w + 4000) \<and>
         distinct (map tid (timers (ready_handler w))) \<and>
         fired_at n (snd (run_timers bootstrap (clock w + d) (ready_handler w))) =
           (if d < 4000 then [] else [clock w + 4000])"
proof -
  let ?v = "ready_handler w"
  let ?ns = "eligible (doc w)"
  from assms(4,5) have mem: "n \<in> set ?ns" by (simp add: eligible_def)
  from assms(1) have dist: "distinct ?ns" by (rule distinct_eligible)
  from assms(2) have tv: "timers ?v = new_timers (nextTimerId w) (clock w) ?ns"
    by (simp add: ready_handler_frame)
  have one: "\<exists>t. filter (\<lambda>t. callback t = Dismiss n) (timers ?v) = [t] \<and> due t = clock w + 4000"
    unfolding tv using dist mem by (rule one_timer_for)
  have ids: "distinct (map tid (timers ?v))"
    unfolding tv by (simp add: map_tid_new_timers)
  have fv: "fired ?v = []"
    using assms(3) by (simp add: fired_def ready_handler_frame)
  have same: "\<forall>t\<in>set (timers ?v). due t = clock w + 4000"
    unfolding tv by (auto dest: due_new_timers)
  have at: "fired_at n (snd (run_timers bootstrap (clock w + d) ?v)) =
      (if d < 4000 then [] else [clock w + 4000])"
  proof (cases "d < 4000")
    case True
    with same have "\<forall>t\<in>set (timers ?v). clock ?v + d < due t"
      by (simp add: ready_handler_frame)
    then have "run_timers bootstrap (clock ?v + d) ?v = (None, ?v\<lparr>clock := max (clock ?v) (clock ?v + d)\<rparr>)"
      by (rule run_timers_idle)
    then have "fired (snd (run_timers bootstrap (clock w + d) ?v)) = fired ?v"
      by (simp add: ready_handler_frame fired_def)
    with fv True show ?thesis by (simp add: fired_at_def)
  next
    case False
    then have "clock w + 4000 \<le> clock w + d" by simp
    with same have "fired (snd (run_timers bootstrap (clock w + d) ?v)) =
        fired ?v @ map (\<lambda>t. (max (clock ?v) (clock w + 4000), node_of (callback t))) (timers ?v)"
      by (rule run_timers_same_due_fired)
    also have "max (clock ?v) (clock w + 4000) = clock w + 4000"
      by (simp add: ready_handler_frame)
    also have "map (\<lambda>t. (clock w + 4000, node_of (callback t))) (timers ?v) =
        map (\<lambda>m. (clock w + 4000, m)) (map (\<lambda>t. node_of (callback t)) (timers ?v))"
      by simp
    also have "map (\<lambda>t. node_of (callback t)) (timers ?v) = ?ns"
      unfolding tv by (rule nodes_new_timers)
    finally have "fired (snd (run_timers bootstrap (clock w + d) ?v)) = map (\<lambda>m. (clock w + 4000, m)) ?ns"
      using fv by simp
    from fired_at_scheduled [OF this dist mem] False show ?thesis by simp
  qed
  from one ids at show ?thesis by blast
qed

theorem eligible_alert_gets_one_timer_witness:
  "(\<exists>t. filter (\<lambda>t. callback t = Dismiss 3) (timers (ready_handler (main_js (loading abc_page 250)))) = [t] \<and>
        due t = 4250) \<and>
   fired_at 3 (snd (run_timers (Some removing_toolkit) (250 + 3999)
      (ready_handler (main_js (loading abc_page 250))))) = [] \<and>
   fired_at 3 (snd (run_timers (Some removing_toolkit) (250 + 4000)
      (ready_handler (main_js (loading abc_page 250))))) = [4250]"
proof -
  let ?w = "main_js (loading abc_page 250)"
  have h: "distinct (elements (doc ?w))" "timers ?w = []" "fired ?w = []"
    "3 \<in> set (querySelectorAll_class ''alert'' (doc ?w))"
    "\<not> contains (classList (doc ?w) 3) ''alert-danger''"
    by (simp_all add: main_js_def addEventListener_def loading_def abc_page_def fired_def
        querySelectorAll_class_def contains_def)
  have c: "clock ?w = 250"
    by (simp add: main_js_def addEventListener_def loading_def)
  from eligible_alert_gets_one_timer [OF h, of "Some removing_toolkit" 3999]
    eligible_alert_gets_one_timer [OF h, of "Some removing_toolkit" 4000]
  show ?thesis unfolding c by simp
qed

text \<open>
  C2. An alert element that carries \<^verbatim>\<open>alert-danger\<close> when the ready event fires is
  skipped by the listener, and whatever happens afterwards (time passing, DOM changes,
  including the removal of its danger class, the script or the event coming again) no
  dismiss timer is ever pending for it, no dismiss callback ever runs for it and
  \<^verbatim>\<open>close()\<close> is never invoked on it.
\<close>

theorem danger_alert_never_scheduled:
  assumes "n \<in> set (querySelectorAll_class ''alert'' (doc w))"
    and "contains (classList (doc w) n) ''alert-danger''"
    and "untouched n w"
  shows "n \<notin> fst ` set (scheduled_by w) \<and> untouched n (snd (run bootstrap (FireReady # as) w))"
proof -
  from assms(2) have ne: "n \<notin> set (eligible (doc w))"
    by (simp add: eligible_iff contains_def)
  then have "n \<notin> fst ` set (scheduled_by w)"
    by (auto simp: scheduled_by_eq)
  moreover from never_touched [OF ne, of bootstrap as] assms(3)
  have "untouched n (snd (run bootstrap (FireReady # as) w))"
    by (simp add: untouched_def)
  ultimately show ?thesis ..
qed

theorem danger_alert_never_scheduled_witness:
  "2 \<notin> fst ` set (scheduled_by (main_js (loading abc_page 0))) \<and>
   untouched 2 (snd (run (Some removing_toolkit)
       (FireReady # [Advance 4000, Mutate (setClasses 2 [''alert'']), Advance 9000])
       (main_js (loading abc_page 0))))"
  by (rule danger_alert_never_scheduled)
     (simp_all add: querySelectorAll_class_def contains_def abc_page_def loading_def main_js_def
        addEventListener_def untouched_def pending_def closed_def fired_def)



text \<open>
  C4. The listener queries the page once, when it runs, and nothing watches the page
  afterwards: an element that is not in the page when the ready event fires and is added
  later, with whatever classes, never gets a dismiss timer, a dismiss callback or a
  \<^verbatim>\<open>close()\<close> call, whatever else happens before and after it is added.
\<close>

theorem late_alert_never_scheduled:
  assumes "n \<notin> set (elements (doc w))" and "untouched n w"
  shows "untouched n (snd (run bootstrap (FireReady # as @ Mutate (appendChild n toks) # bs) w))"
proof -
  from assms(1) have "n \<notin> set (eligible (doc w))"
    by (simp add: eligible_iff)
  from never_touched [OF this, of bootstrap "as @ Mutate (appendChild n toks) # bs"] assms(2)
  show ?thesis by (simp add: untouched_def)
qed

theorem late_alert_never_scheduled_witness:
  "untouched 4 (snd (run (Some removing_toolkit)
       (FireReady # [Advance 1000] @ Mutate (appendChild 4 [''alert'', ''alert-success'']) # [Advance 9000])
       (main_js (loading abc_page 0))))"
  by (rule late_alert_never_scheduled)
     (simp_all add: abc_page_def loading_def main_js_def
        addEventListener_def untouched_def pending_def closed_def fired_def)

text \<open>
  C5. A page whose alert elements are exactly A, B, C in this order, B with
  \<^verbatim>\<open>alert-danger\<close>, A and C without; the script is evaluated and the ready event
  fires. As long as less than 4000 has passed the page is as it was and \<^verbatim>\<open>close()\<close>
  has not been invoked. Once 4000 or more has passed, no error has escaped and the page
  is exactly what the toolkit makes of it when it is asked for the controller of A and
  closes it, and then for the controller of C and closes it: the toolkit has received
  one close for A, then one for C, and none for B, whatever toolkit it is. For a toolkit
  that hands out a controller for every element and whose \<^verbatim>\<open>close()\<close> returns, the
  trace says the same: \<^verbatim>\<open>close()\<close> was invoked once on A, once on C and never on B.
\<close>

theorem three_alerts_scenario:
  assumes "querySelectorAll_class ''alert'' (doc w) = [a, b, c]" and "distinct [a, b, c]"
    and "\<not> contains (classList (doc w) a) ''alert-danger''"
    and "contains (classList (doc w) b) ''alert-danger''"
    and "\<not> contains (classList (doc w) c) ''alert-danger''"
    and "\<not> contentLoaded w" and "listeners w = []" and "timers w = []" and "closed w = []"
    and "e < 4000" and "4000 \<le> d"
  shows "doc (snd (run (Some tk) [EvalScript, FireReady, Advance e] w)) = doc w \<and>
         closed (snd (run (Some tk) [EvalScript, FireReady, Advance e] w)) = [] \<and>
         fst (run (Some tk) [EvalScript, FireReady, Advance d] w) = None \<and>
         doc (snd (run (Some tk) [EvalScript, FireReady, Advance d] w)) =
           closing tk c (closing tk a (doc w)) \<and>
         (working tk \<and> (\<forall>bs p. fst (close tk bs p) = None) \<longrightarrow>
            closed (snd (run (Some tk) [EvalScript, FireReady, Advance d] w)) = [a, c] \<and>
            count_list (closed (snd (run (Some tk) [EvalScript, FireReady, Advance d] w))) a = 1 \<and>
            count_list (closed (snd (run (Some tk) [EvalScript, FireReady, Advance d] w))) b = 0 \<and>
            count_list (closed (snd (run (Some tk) [EvalScript, FireReady, Advance d] w))) c = 1)"
proof -
  let ?v = "main_js w"
  from assms(1,3,4,5) have el: "eligible (doc ?v) = [a, c]"
    by (simp add: eligible_def main_js_def addEventListener_def)
  have dv: "doc ?v = doc w"
    by (simp add: main_js_def addEventListener_def)
  from assms(6-9) have v: "\<not> contentLoaded ?v" "listeners ?v = [(''DOMContentLoaded'', AutoDismiss)]"
    "timers ?v = []" "closed ?v = []"
    by (simp_all add: main_js_def addEventListener_def closed_def)
  have split: "run (Some tk) (EvalScript # as) w = run (Some tk) as ?v" for as
    unfolding run_Cons [of _ EvalScript] by simp
  from load_idle [OF v(1-3) assms(10), of "Some tk"] v(4) dv
  have 1: "doc (snd (run (Some tk) [EvalScript, FireReady, Advance e] w)) = doc w"
    and 2: "closed (snd (run (Some tk) [EvalScript, FireReady, Advance e] w)) = []"
    unfolding split by simp_all
  have 3: "fst (run (Some tk) [EvalScript, FireReady, Advance d] w) = None"
    by (rule run_no_error)
  from load_fire_doc [OF v(1-3) assms(11), of tk] el dv
  have 4: "doc (snd (run (Some tk) [EvalScript, FireReady, Advance d] w)) =
      closing tk c (closing tk a (doc w))"
    unfolding split by simp
  have 5: "closed (snd (run (Some tk) [EvalScript, FireReady, Advance d] w)) = [a, c]"
    if "working tk"
  proof -
    from assms(11) have d: "elapsed [] < 4000" "4000 \<le> elapsed [] + d" by simp_all
    from load_wait_close [OF that v(1-3) d] v(4) el
    have "closed (snd (run (Some tk) (FireReady # [] @ [Advance d]) ?v)) = [a, c]"
      by simp
    then show ?thesis unfolding split by simp
  qed
  from assms(2) have "count_list [a, c] a = 1" "count_list [a, c] b = 0" "count_list [a, c] c = 1"
    by simp_all
  with 1 2 3 4 5 show ?thesis by metis
qed

theorem three_alerts_scenario_witness:
  "doc (snd (run (Some tagging_toolkit) [EvalScript, FireReady, Advance 3999] (loading abc_page 0))) = abc_page \<and>
   closed (snd (run (Some tagging_toolkit) [EvalScript, FireReady, Advance 3999] (loading abc_page 0))) = [] \<and>
   fst (run (Some tagging_toolkit) [EvalScript, FireReady, Advance 4000] (loading abc_page 0)) = None \<and>
   elements (doc (snd (run (Some tagging_toolkit) [EvalScript, FireReady, Advance 4000] (loading abc_page 0)))) = [2] \<and>
   classList (doc (snd (run (Some tagging_toolkit) [EvalScript, FireReady, Advance 4000] (loading abc_page 0)))) 1 =
     [''alert'', ''alert-success'', ''closed''] \<and>
   classList (doc (snd (run (Some tagging_toolkit) [EvalScript, FireReady, Advance 4000] (loading abc_page 0)))) 2 =
     [''alert'', ''alert-danger''] \<and>
   classList (doc (snd (run (Some tagging_toolkit) [EvalScript, FireReady, Advance 4000] (loading abc_page 0)))) 3 =
     [''alert'', ''alert-info'', ''closed''] \<and>
   closed (snd (run (Some tagging_toolkit) [EvalScript, FireReady, Advance 4000] (loading abc_page 0))) = [1, 3]"
proof -
  let ?w = "loading abc_page 0"
  have h: "querySelectorAll_class ''alert'' (doc ?w) = [1, 2, 3]" "distinct [1, 2, 3 :: nat]"
    "\<not> contains (classList (doc ?w) 1) ''alert-danger''"
    "contains (classList (doc ?w) 2) ''alert-danger''"
    "\<not> contains (classList (doc ?w) 3) ''alert-danger''"
    "\<not> contentLoaded ?w" "listeners ?w = []" "timers ?w = []" "closed ?w = []"
    "(3999 :: nat) < 4000" "(4000 :: nat) \<le> 4000"
    by (simp_all add: querySelectorAll_class_def contains_def loading_def abc_page_def closed_def)
  have k: "working tagging_toolkit \<and> (\<forall>bs p. fst (close tagging_toolkit bs p) = None)"
    by (simp add: working_def tagging_toolkit_def)
  have dw: "doc ?w = abc_page" by (simp add: loading_def)
  have e: "elements (closing tagging_toolkit 3 (closing tagging_toolkit 1 abc_page)) = [2]"
    "classList (closing tagging_toolkit 3 (closing tagging_toolkit 1 abc_page)) 1 = [''alert'', ''alert-success'', ''closed'']"
    "classList (closing tagging_toolkit 3 (closing tagging_toolkit 1 abc_page)) 2 = [''alert'', ''alert-danger'']"
    "classList (closing tagging_toolkit 3 (closing tagging_toolkit 1 abc_page)) 3 = [''alert'', ''alert-info'', ''closed'']"
    by (simp_all add: closing_def tagging_toolkit_def abc_page_def)
  from three_alerts_scenario [OF h, of tagging_toolkit] k e
  show ?thesis unfolding dw by simp
qed

text \<open>
  C6. The danger class is read once, by the listener. After the ready event, let any
  actions happen that take less than 4000 in all (among them any change of any
  element's classes), then let the clock pass 4000: the elements whose dismiss callback
  has run are exactly the alerts that had no \<^verbatim>\<open>alert-danger\<close> at ready-time, in
  document order, and with a toolkit that hands out controllers these are exactly the
  elements on which \<^verbatim>\<open>close()\<close> was invoked. The page as it was at ready-time decides,
  not the page as it is when the timer fires.
\<close>

theorem eligibility_is_fixed_at_ready_time:
  assumes "\<not> contentLoaded w" and "listeners w = [(''DOMContentLoaded'', AutoDismiss)]"
    and "timers w = []" and "fired w = []" and "closed w = []"
    and "elapsed pre < 4000" and "4000 \<le> elapsed pre + d"
  shows "map snd (fired (snd (run bootstrap (FireReady # pre @ [Advance d]) w))) =
           filter (\<lambda>n. \<not> contains (classList (doc w) n) ''alert-danger'')
             (querySelectorAll_class ''alert'' (doc w)) \<and>
         (working tk \<longrightarrow>
            closed (snd (run (Some tk) (FireReady # pre @ [Advance d]) w)) =
              filter (\<lambda>n. \<not> contains (classList (doc w) n) ''alert-danger'')
                (querySelectorAll_class ''alert'' (doc w)))"
proof -
  from load_wait_fire [OF assms(1-3,6,7), of bootstrap] assms(4)
  have "map snd (fired (snd (run bootstrap (FireReady # pre @ [Advance d]) w))) = eligible (doc w)"
    by (simp add: comp_def del: run.simps)
  moreover have "closed (snd (run (Some tk) (FireReady # pre @ [Advance d]) w)) = eligible (doc w)"
    if "working tk"
    using load_wait_close [OF that assms(1-3,6,7)] assms(5) by (simp del: run.simps)
  ultimately show ?thesis
    unfolding eligible_def by blast
qed

theorem eligibility_is_fixed_at_ready_time_witness:
  "map snd (fired (snd (run (Some removing_toolkit)
      (FireReady # [Advance 1000, Mutate (setClasses 1 [''alert'', ''alert-danger'']),
                    Mutate (setClasses 2 [''alert''])] @ [Advance 3000])
      (main_js (loading abc_page 0))))) = [1, 3] \<and>
   closed (snd (run (Some removing_toolkit)
      (FireReady # [Advance 1000, Mutate (setClasses 1 [''alert'', ''alert-danger'']),
                    Mutate (setClasses 2 [''alert''])] @ [Advance 3000])
      (main_js (loading abc_page 0)))) = [1, 3]"
proof -
  let ?w = "main_js (loading abc_page 0)"
  let ?pre = "[Advance 1000, Mutate (setClasses 1 [''alert'', ''alert-danger'']), Mutate (setClasses 2 [''alert''])]"
  have h: "\<not> contentLoaded ?w" "listeners ?w = [(''DOMContentLoaded'', AutoDismiss)]"
    "timers ?w = []" "fired ?w = []" "closed ?w = []" "elapsed ?pre < 4000" "4000 \<le> elapsed ?pre + 3000"
    by (simp_all add: main_js_def addEventListener_def loading_def fired_def closed_def)
  have k: "working removing_toolkit"
    by (simp add: working_def removing_toolkit_def)
  have e: "filter (\<lambda>n. \<not> contains (classList (doc ?w) n) ''alert-danger'')
             (querySelectorAll_class ''alert'' (doc ?w)) = [1, 3]"
    by (simp add: main_js_def addEventListener_def loading_def abc_page_def
        querySelectorAll_class_def contains_def)
  from eligibility_is_fixed_at_ready_time [OF h, of "Some removing_toolkit" removing_toolkit] k
  show ?thesis unfolding e by blast
qed

text \<open>
  C7. Once the listener has scheduled the dismiss of an element, no action aborts it:
  after any actions that take less than 4000 in all (the removal of the element from the
  page among them) its timer is still pending, and when the clock passes 4000 the
  callback runs, exactly once and at its due time, and no error escapes, whatever the
  toolkit does with an element that is gone.
\<close>

theorem scheduled_dismiss_cannot_be_aborted:
  assumes "distinct (elements (doc w))"
    and "\<not> contentLoaded w" and "listeners w = [(''DOMContentLoaded'', AutoDismiss)]"
    and "timers w = []" and "fired w = []"
    and "n \<in> set (querySelectorAll_class ''alert'' (doc w))"
    and "\<not> contains (classList (doc w) n) ''alert-danger''"
    and "elapsed pre < 4000" and "4000 \<le> elapsed pre + d"
  shows "n \<in> set (pending (snd (run bootstrap (FireReady # pre) w))) \<and>
         fst (run bootstrap (FireReady # pre @ [Advance d]) w) = None \<and>
         fired_at n (snd (run bootstrap (FireReady # pre @ [Advance d]) w)) = [clock w + 4000]"
proof -
  from assms(6,7) have mem: "n \<in> set (eligible (doc w))" by (simp add: eligible_def)
  from assms(1) have dist: "distinct (eligible (doc w))" by (rule distinct_eligible)
  from load_then_wait(2) [OF assms(2-4,8), of bootstrap]
  have "pending (snd (run bootstrap (FireReady # pre) w)) = eligible (doc w)"
    unfolding pending_def by (simp add: nodes_new_timers del: run.simps)
  with mem have 1: "n \<in> set (pending (snd (run bootstrap (FireReady # pre) w)))" by simp
  from load_wait_fire [OF assms(2-4,8,9), of bootstrap] assms(5)
  have "fired (snd (run bootstrap (FireReady # pre @ [Advance d]) w)) =
      map (\<lambda>m. (clock w + 4000, m)) (eligible (doc w))"
    by (simp del: run.simps)
  from fired_at_scheduled [OF this dist mem] 1 show ?thesis
    by (simp add: run_no_error del: run.simps)
qed

theorem scheduled_dismiss_cannot_be_aborted_witness:
  "1 \<in> set (pending (snd (run (Some removing_toolkit)
      (FireReady # [Advance 1000, Mutate (removeNode 1)]) (main_js (loading abc_page 0))))) \<and>
   fst (run (Some removing_toolkit)
      (FireReady # [Advance 1000, Mutate (removeNode 1)] @ [Advance 3000]) (main_js (loading abc_page 0))) = None \<and>
   fired_at 1 (snd (run (Some removing_toolkit)
      (FireReady # [Advance 1000, Mutate (removeNode 1)] @ [Advance 3000]) (main_js (loading abc_page 0)))) = [4000] \<and>
   fst (try_block (Some removing_toolkit) 1 (loading (removeNode 1 abc_page) 4000)) =
      Some (WidgetError ''element is not in the page'')"
proof -
  let ?w = "main_js (loading abc_page 0)"
  let ?pre = "[Advance 1000, Mutate (removeNode 1)]"
  have h: "distinct (elements (doc ?w))" "\<not> contentLoaded ?w"
    "listeners ?w = [(''DOMContentLoaded'', AutoDismiss)]" "timers ?w = []" "fired ?w = []"
    "1 \<in> set (querySelectorAll_class ''alert'' (doc ?w))"
    "\<not> contains (classList (doc ?w) 1) ''alert-danger''"
    "elapsed ?pre < 4000" "4000 \<le> elapsed ?pre + 3000"
    by (simp_all add: main_js_def addEventListener_def loading_def abc_page_def fired_def
        querySelectorAll_class_def contains_def)
  have c: "clock ?w = 0"
    by (simp add: main_js_def addEventListener_def loading_def)
  have e: "fst (try_block (Some removing_toolkit) 1 (loading (removeNode 1 abc_page) 4000)) =
      Some (WidgetError ''element is not in the page'')"
    by (simp add: try_block_def removing_toolkit_def removeNode_def loading_def abc_page_def)
  from scheduled_dismiss_cannot_be_aborted [OF h, of "Some removing_toolkit"] e
  show ?thesis unfolding c by simp
qed

text \<open>
  C8. A page starts loading; the script is evaluated once, before the ready event, and
  until the event only time passes and the DOM changes. Then before the event nothing is
  scheduled and the listener has not run; and after the event, whatever follows (the
  event or the script coming again, time, DOM changes), the listener has run exactly
  once, at the time of the event, and the number of \<^verbatim>\<open>setTimeout\<close> calls ever made is
  the number of eligible alerts in the page at the event.
\<close>

theorem handler_runs_once_per_page_load:
  assumes "\<not> contentLoaded w" and "listeners w = []" and "timers w = []" and "invocations w = []"
    and "list_all quiet pre"
  shows "timers (snd (run bootstrap (EvalScript # pre) w)) = [] \<and>
         invocations (snd (run bootstrap (EvalScript # pre) w)) = [] \<and>
         invocations (snd (run bootstrap (EvalScript # pre @ FireReady # post) w)) = [clock w + elapsed pre] \<and>
         nextTimerId (snd (run bootstrap (EvalScript # pre @ FireReady # post) w)) =
           nextTimerId w + length (eligible (doc (snd (run bootstrap (EvalScript # pre) w))))"
proof -
  let ?v = "main_js w"
  let ?u = "snd (run bootstrap pre ?v)"
  let ?r = "snd (step bootstrap FireReady ?u)"
  from assms(3) have "timers ?v = []" by (simp add: main_js_def addEventListener_def)
  from run_quiet_idle [OF assms(5) this, of bootstrap] assms(1,2,4)
  have u: "timers ?u = []" "invocations ?u = []" "\<not> contentLoaded ?u"
    "listeners ?u = [(''DOMContentLoaded'', AutoDismiss)]" "nextTimerId ?u = nextTimerId w"
    "clock ?u = clock w + elapsed pre"
    by (simp_all add: main_js_def addEventListener_def invocations_def)
  have before: "snd (run bootstrap (EvalScript # pre) w) = ?u"
    unfolding run_Cons by simp
  note r = step_FireReady_loaded [OF u(3,4), of bootstrap]
  from r(6) u(2,6) have ri: "invocations ?r = [clock w + elapsed pre]"
    by (simp add: invocations_def invoked_of_append)
  from r(5) u(5) have rk: "nextTimerId ?r = nextTimerId w + length (eligible (doc ?u))"
    by simp
  have after: "snd (run bootstrap (EvalScript # pre @ FireReady # post) w) = snd (run bootstrap post ?r)"
    unfolding run_Cons [of _ EvalScript] run_append run_Cons [of _ FireReady] by simp
  from run_loaded [OF r(1), of bootstrap post] ri rk
  have "invocations (snd (run bootstrap post ?r)) = [clock w + elapsed pre]"
    "nextTimerId (snd (run bootstrap post ?r)) = nextTimerId w + length (eligible (doc ?u))"
    by simp_all
  with u(1,2) show ?thesis
    unfolding before after by simp
qed

theorem handler_runs_once_per_page_load_witness:
  "timers (snd (run (Some removing_toolkit) (EvalScript # [Advance 30]) (loading abc_page 0))) = [] \<and>
   invocations (snd (run (Some removing_toolkit) (EvalScript # [Advance 30]) (loading abc_page 0))) = [] \<and>
   invocations (snd (run (Some removing_toolkit)
      (EvalScript # [Advance 30] @ FireReady # [Advance 5000, FireReady, EvalScript, FireReady, Advance 5000])
      (loading abc_page 0))) = [30]"
proof -
  let ?w = "loading abc_page 0"
  have h: "\<not> contentLoaded ?w" "listeners ?w = []" "timers ?w = []" "invocations ?w = []"
    "list_all quiet [Advance 30]"
    by (simp_all add: loading_def invocations_def)
  have c: "clock ?w + elapsed [Advance 30] = 30"
    by (simp add: loading_def)
  from handler_runs_once_per_page_load [OF h, of "Some removing_toolkit"
      "[Advance 5000, FireReady, EvalScript, FireReady, Advance 5000]"]
  show ?thesis unfolding c by blast
qed

text \<open>
  C9. What the listener schedules depends on the document only: two runs over pages with
  the same elements in the same order and the same class tokens on each (in whatever
  order, and whatever the clock, the timer queue and the rest of the state are) schedule
  a dismiss for the same elements in the same order, each with a delay of 4000.
\<close>

theorem scheduling_is_deterministic:
  assumes "elements (doc w) = elements (doc v)"
    and "\<forall>n\<in>set (elements (doc w)). set (classList (doc w) n) = set (classList (doc v) n)"
  shows "scheduled_by w = scheduled_by v \<and> snd ` set (scheduled_by w) \<subseteq> {4000}"
proof -
  from assms have "eligible (doc w) = eligible (doc v)" by (rule eligible_cong)
  then show ?thesis by (auto simp: scheduled_by_eq)
qed

theorem scheduling_is_deterministic_witness:
  "scheduled_by (main_js (loading abc_page 0)) =
     scheduled_by (setTimeout (Dismiss 7) 5 (loading abc_page_reordered 777)) \<and>
   snd ` set (scheduled_by (main_js (loading abc_page 0))) \<subseteq> {4000}"
  by (rule scheduling_is_deterministic)
     (simp_all add: abc_page_def abc_page_reordered_def loading_def main_js_def
        addEventListener_def setTimeout_def insert_commute)

text \<open>
  C10. The danger test is an exact match of one class token: an alert element is
  scheduled for dismissal, with delay 4000, if and only if none of its class tokens is
  the string \<^verbatim>\<open>alert-danger\<close>. A token such as \<^verbatim>\<open>alert-warning\<close>, or one that only
  contains \<^verbatim>\<open>alert-danger\<close> (\<^verbatim>\<open>alert-danger-custom\<close>), does not exclude the element.
\<close>

theorem danger_is_exact_token:
  assumes "n \<in> set (elements (doc w))" and "''alert'' \<in> set (classList (doc w) n)"
  shows "(n, 4000) \<in> set (scheduled_by w) \<longleftrightarrow>
           (\<forall>tok\<in>set (classList (doc w) n). tok \<noteq> ''alert-danger'')"
  using assms by (auto simp: scheduled_by_eq eligible_iff)

theorem danger_is_exact_token_witness:
  "(5, 4000) \<in> set (scheduled_by (main_js (loading lookalike_page 0))) \<and>
   (6, 4000) \<in> set (scheduled_by (main_js (loading lookalike_page 0))) \<and>
   (7, 4000) \<notin> set (scheduled_by (main_js (loading lookalike_page 0)))"
proof -
  let ?w = "main_js (loading lookalike_page 0)"
  have h: "5 \<in> set (elements (doc ?w))" "''alert'' \<in> set (classList (doc ?w) 5)"
    "6 \<in> set (elements (doc ?w))" "''alert'' \<in> set (classList (doc ?w) 6)"
    "7 \<in> set (elements (doc ?w))" "''alert'' \<in> set (classList (doc ?w) 7)"
    by (simp_all add: main_js_def addEventListener_def loading_def lookalike_page_def)
  have t: "\<forall>tok\<in>set (classList (doc ?w) 5). tok \<noteq> ''alert-danger''"
    "\<forall>tok\<in>set (classList (doc ?w) 6). tok \<noteq> ''alert-danger''"
    "\<not> (\<forall>tok\<in>set (classList (doc ?w) 7). tok \<noteq> ''alert-danger'')"
    by (simp_all add: main_js_def addEventListener_def loading_def lookalike_page_def)
  from danger_is_exact_token [OF h(1,2)] danger_is_exact_token [OF h(3,4)]
    danger_is_exact_token [OF h(5,6)] t
  show ?thesis by blast
qed

end
